theory Spec2Isabelle
  imports Main "HOL-Library.AList" "HOL-Library.FSet"
begin

section \<open>Naive Bayes headline classifier (TP1/ej\_2.py)\<close>

text \<open>
  The Python source works on strings, dictionaries (insertion ordered), a set and
  floating-point numbers.  Dictionaries are association lists updated in place or extended
  at the end (\<open>AList.update\<close>), so that iteration order is the order of first insertion.
  The vocabulary is a finite set.  Counts are natural numbers.  A character is one of the
  first 256 code points.  Every exception the source can raise is a value of \<open>error\<close>.

  The floating-point arithmetic of the classifier is embedded twice.  In the functions
  \<open>fit\<close>, \<open>calculate_posteriors\<close>, \<open>predict\<close> and \<open>classify\<close> every quotient and product is
  taken in the rationals, with no rounding; they serve the properties that do not depend on
  the values computed (which category is picked among given posteriors, how documents are
  counted, which keys a dictionary has, what raises) and the sum of the priors, which the
  specification states up to floating tolerance.  In \<open>fit_fp\<close> and \<open>calculate_posteriors_fp\<close>
  every floating-point result is rounded to a double, as the source computes it; they serve
  the property of the values of the posteriors.  The cut point of the stratified split is
  computed in doubles.
\<close>

datatype error = ZeroDivisionError | KeyError | IndexError | ValueError

type_synonym 'v dict = "(string \<times> 'v) list"

subsection \<open>Tokenizer\<close>

text \<open>The characters \<open>str.split()\<close> treats as separators (\<open>str.isspace\<close>).\<close>

definition isspace :: "char \<Rightarrow> bool" where
  "isspace c = (c \<in> set [CHR 0x09, CHR 0x0A, CHR 0x0B, CHR 0x0C, CHR 0x0D, CHR 0x1C,
                          CHR 0x1D, CHR 0x1E, CHR 0x1F, CHR 0x20, CHR 0x85, CHR 0xA0])"

text \<open>\<open>text.split()\<close>: the maximal runs of non-separators, in order; \<open>w\<close> is the run being read.\<close>

fun split_acc :: "string \<Rightarrow> string \<Rightarrow> string list" where
  "split_acc w [] = (if w = [] then [] else [w])"
| "split_acc w (c # cs) =
     (if isspace c then (if w = [] then split_acc [] cs else w # split_acc [] cs)
      else split_acc (w @ [c]) cs)"

definition str_split :: "string \<Rightarrow> string list" where
  "str_split text = split_acc [] text"

record Tokenizer =
  filter_w :: "string \<Rightarrow> bool"
  sanitizer :: "string \<Rightarrow> string"

text \<open>\<open>Tokenizer.apply\<close>\<close>

definition apply_t :: "Tokenizer \<Rightarrow> string \<Rightarrow> string list" where
  "apply_t tk text = map (sanitizer tk) (filter (filter_w tk) (str_split text))"

definition identity :: "string \<Rightarrow> string" where
  "identity word = word"

definition identity_filter :: "string \<Rightarrow> bool" where
  "identity_filter word = True"

subsection \<open>The classifier\<close>

text \<open>The field \<open>word_counts\<close> of the source is never read or written after construction and is left out.\<close>

record NaiveBayesClassifier =
  vocab :: "string fset"
  tokenizer :: Tokenizer
  class_priors :: "rat dict"
  class_word_counts :: "nat dict dict"

text \<open>\<open>NaiveBayesClassifier.__init__\<close>\<close>

definition init :: "Tokenizer \<Rightarrow> NaiveBayesClassifier" where
  "init tk = \<lparr>vocab = {||}, tokenizer = tk, class_priors = [], class_word_counts = []\<rparr>"

text \<open>\<open>d[k] += n\<close>: the key must be there.\<close>

definition dict_add :: "nat dict \<Rightarrow> string \<Rightarrow> nat \<Rightarrow> error + nat dict" where
  "dict_add d k n = (case map_of d k of None \<Rightarrow> Inl KeyError
                     | Some v \<Rightarrow> Inr (AList.update k (v + n) d))"

text \<open>The body of the loop over \<open>words\<close> in \<open>fit\<close>, on the dictionary of one label.\<close>

definition count_word :: "nat dict \<Rightarrow> string \<Rightarrow> error + nat dict" where
  "count_word d word =
     dict_add (if map_of d word = None then AList.update word 0 d else d) word 1"

fun count_words :: "nat dict \<Rightarrow> string list \<Rightarrow> error + nat dict" where
  "count_words d [] = Inr d"
| "count_words d (word # ws) =
     (case count_word d word of Inl e \<Rightarrow> Inl e | Inr d' \<Rightarrow> count_words d' ws)"

text \<open>One iteration of the loop over the documents in \<open>fit\<close>.\<close>

definition fit_doc :: "NaiveBayesClassifier \<Rightarrow> string \<Rightarrow> string \<Rightarrow> error + NaiveBayesClassifier" where
  "fit_doc m text label =
     (let words = apply_t (tokenizer m) text;
          v = vocab m |\<union>| fset_of_list words;
          cwc = (if map_of (class_word_counts m) label = None
                 then AList.update label [(''__total__'', 0)] (class_word_counts m)
                 else class_word_counts m)
      in case map_of cwc label of None \<Rightarrow> Inl KeyError
         | Some d \<Rightarrow>
           (case dict_add d ''__total__'' (length words) of Inl e \<Rightarrow> Inl e
            | Inr d1 \<Rightarrow>
              (case count_words d1 words of Inl e \<Rightarrow> Inl e
               | Inr d2 \<Rightarrow>
                   Inr (m\<lparr>vocab := v, class_word_counts := AList.update label d2 cwc\<rparr>))))"

text \<open>The loop \<open>for i in range(len(X))\<close>; \<open>y.iloc[i]\<close> raises when \<open>y\<close> is shorter than \<open>X\<close>.\<close>

fun fit_loop :: "NaiveBayesClassifier \<Rightarrow> string list \<Rightarrow> string list \<Rightarrow> error + NaiveBayesClassifier" where
  "fit_loop m [] ys = Inr m"
| "fit_loop m (x # xs) [] = Inl IndexError"
| "fit_loop m (x # xs) (label # ys) =
     (case fit_doc m x label of Inl e \<Rightarrow> Inl e | Inr m' \<Rightarrow> fit_loop m' xs ys)"

text \<open>One entry of the dictionary comprehension that builds \<open>class_priors\<close>.\<close>

definition prior_entry :: "nat \<Rightarrow> string \<times> nat dict \<Rightarrow> error + string \<times> rat" where
  "prior_entry total_documents lc =
     (case map_of (snd lc) ''__total__'' of None \<Rightarrow> Inl KeyError
      | Some t \<Rightarrow> if total_documents = 0 then Inl ZeroDivisionError
                  else Inr (fst lc, of_nat t / of_nat total_documents))"

fun priors_of :: "nat \<Rightarrow> nat dict dict \<Rightarrow> error + rat dict" where
  "priors_of n [] = Inr []"
| "priors_of n (lc # rest) =
     (case prior_entry n lc of Inl e \<Rightarrow> Inl e
      | Inr p \<Rightarrow> (case priors_of n rest of Inl e \<Rightarrow> Inl e | Inr ps \<Rightarrow> Inr (p # ps)))"

text \<open>\<open>NaiveBayesClassifier.fit\<close>\<close>

definition fit :: "NaiveBayesClassifier \<Rightarrow> string list \<Rightarrow> string list \<Rightarrow> error + NaiveBayesClassifier" where
  "fit m X y =
     (case fit_loop m X y of Inl e \<Rightarrow> Inl e
      | Inr m' \<Rightarrow>
        (case priors_of (length y) (class_word_counts m') of Inl e \<Rightarrow> Inl e
         | Inr ps \<Rightarrow> Inr (m'\<lparr>class_priors := ps\<rparr>)))"

text \<open>\<open>d.get(w, 0)\<close>\<close>

definition get0 :: "nat dict \<Rightarrow> string \<Rightarrow> nat" where
  "get0 d w = (case map_of d w of None \<Rightarrow> 0 | Some n \<Rightarrow> n)"

text \<open>
  One pass of the loop over \<open>words\<close> in \<open>_calculate_posteriors\<close>: the count of the word under
  the label (\<open>get(word, 0)\<close>), the label's total, and the smoothed quotient.
\<close>

definition likelihood_step :: "NaiveBayesClassifier \<Rightarrow> string \<Rightarrow> rat \<Rightarrow> string \<Rightarrow> error + rat" where
  "likelihood_step m label likelihood word =
     (case map_of (class_word_counts m) label of None \<Rightarrow> Inl KeyError
      | Some d \<Rightarrow>
        (let word_count = get0 d word
         in case map_of d ''__total__'' of None \<Rightarrow> Inl KeyError
            | Some total_words \<Rightarrow>
                if total_words + fcard (vocab m) = 0 then Inl ZeroDivisionError
                else Inr (likelihood *
                          (of_nat (word_count + 1) / of_nat (total_words + fcard (vocab m))))))"

fun likelihood_loop :: "NaiveBayesClassifier \<Rightarrow> string \<Rightarrow> rat \<Rightarrow> string list \<Rightarrow> error + rat" where
  "likelihood_loop m label likelihood [] = Inr likelihood"
| "likelihood_loop m label likelihood (word # ws) =
     (case likelihood_step m label likelihood word of Inl e \<Rightarrow> Inl e
      | Inr l' \<Rightarrow> likelihood_loop m label l' ws)"

text \<open>The loop over the labels of \<open>class_priors\<close>; \<open>posteriors\<close> is the dictionary built so far.\<close>

fun posteriors_loop ::
  "NaiveBayesClassifier \<Rightarrow> string list \<Rightarrow> rat dict \<Rightarrow> string list \<Rightarrow> error + rat dict" where
  "posteriors_loop m words posteriors [] = Inr posteriors"
| "posteriors_loop m words posteriors (label # ls) =
     (case map_of (class_priors m) label of None \<Rightarrow> Inl KeyError
      | Some prior \<Rightarrow>
        (case likelihood_loop m label 1 words of Inl e \<Rightarrow> Inl e
         | Inr likelihood \<Rightarrow>
             posteriors_loop m words (AList.update label (prior * likelihood) posteriors) ls))"

text \<open>\<open>NaiveBayesClassifier._calculate_posteriors\<close>\<close>

definition calculate_posteriors :: "NaiveBayesClassifier \<Rightarrow> string \<Rightarrow> error + rat dict" where
  "calculate_posteriors m text =
     posteriors_loop m (apply_t (tokenizer m) text) [] (map fst (class_priors m))"

text \<open>
  \<open>max(posteriors, key=posteriors.get)\<close>: the running best is replaced only by a strictly
  greater value; an empty dictionary raises.
\<close>

fun max_loop :: "string \<times> rat \<Rightarrow> rat dict \<Rightarrow> string \<times> rat" where
  "max_loop best [] = best"
| "max_loop best (kv # rest) = max_loop (if snd best < snd kv then kv else best) rest"

definition max_key :: "rat dict \<Rightarrow> error + string" where
  "max_key d = (case d of [] \<Rightarrow> Inl ValueError | kv # rest \<Rightarrow> Inr (fst (max_loop kv rest)))"

text \<open>\<open>NaiveBayesClassifier.predict\<close>\<close>

fun predict :: "NaiveBayesClassifier \<Rightarrow> string list \<Rightarrow> error + string list" where
  "predict m [] = Inr []"
| "predict m (text # X) =
     (case calculate_posteriors m text of Inl e \<Rightarrow> Inl e
      | Inr posteriors \<Rightarrow>
        (case max_key posteriors of Inl e \<Rightarrow> Inl e
         | Inr c \<Rightarrow> (case predict m X of Inl e \<Rightarrow> Inl e | Inr cs \<Rightarrow> Inr (c # cs))))"

text \<open>
  \<open>NaiveBayesClassifier.classify\<close>: the loop over the documents carries the four counters;
  the label \<open>y.iloc[index]\<close> is read after the score has been compared.
\<close>

fun classify_loop ::
  "NaiveBayesClassifier \<Rightarrow> rat \<Rightarrow> string \<Rightarrow> nat \<times> nat \<times> nat \<times> nat \<Rightarrow> string list \<Rightarrow> string list
   \<Rightarrow> error + nat \<times> nat \<times> nat \<times> nat" where
  "classify_loop m umbral category acc [] ys = Inr acc"
| "classify_loop m umbral category (TP, FP, FN, TN) (x # xs) ys =
     (case calculate_posteriors m x of Inl e \<Rightarrow> Inl e
      | Inr posteriors \<Rightarrow>
        (case map_of posteriors category of None \<Rightarrow> Inl KeyError
         | Some cat_prob \<Rightarrow>
           (let total_sum = sum_list (map snd posteriors)
            in if total_sum = 0 then Inl ZeroDivisionError
               else (case ys of [] \<Rightarrow> Inl IndexError
                     | label # ys' \<Rightarrow>
                         classify_loop m umbral category
                           (if cat_prob / total_sum > umbral
                            then (if label = category then (TP + 1, FP, FN, TN)
                                  else (TP, FP + 1, FN, TN))
                            else (if label = category then (TP, FP, FN + 1, TN)
                                  else (TP, FP, FN, TN + 1)))
                           xs ys'))))"

definition classify ::
  "NaiveBayesClassifier \<Rightarrow> string list \<Rightarrow> string list \<Rightarrow> rat \<Rightarrow> string
   \<Rightarrow> error + nat \<times> nat \<times> nat \<times> nat" where
  "classify m X y umbral category = classify_loop m umbral category (0, 0, 0, 0) X y"

subsection \<open>Metrics\<close>

text \<open>One entry of a binary confusion matrix (the keys \<open>'TP'\<close>, \<open>'FP'\<close>, \<open>'TN'\<close>, \<open>'FN'\<close>).\<close>

record counts =
  cTP :: nat
  cFP :: nat
  cTN :: nat
  cFN :: nat

record metric =
  Accuracy :: rat
  Precision :: rat
  Recall :: rat
  F1_Score :: rat

text \<open>The body of the loop of \<open>compute_metrics\<close>.\<close>

definition metrics_of :: "counts \<Rightarrow> metric" where
  "metrics_of v =
     (let TP = cTP v; FP = cFP v; TN = cTN v; FN = cFN v;
          accuracy = (if TP + FP + TN + FN > 0
                      then of_nat (TP + TN) / of_nat (TP + FP + TN + FN) else 0);
          precision = (if TP + FP > 0 then of_nat TP / of_nat (TP + FP) else 0);
          recall = (if TP + FN > 0 then of_nat TP / of_nat (TP + FN) else 0);
          f1_score = (if precision + recall > 0
                      then 2 * (precision * recall) / (precision + recall) else 0)
      in \<lparr>Accuracy = accuracy, Precision = precision, Recall = recall, F1_Score = f1_score\<rparr>)"

definition compute_metrics :: "counts dict \<Rightarrow> metric dict" where
  "compute_metrics confusion_matrix =
     foldl (\<lambda>metrics cv. AList.update (fst cv) (metrics_of (snd cv)) metrics) [] confusion_matrix"

text \<open>
  \<open>roc\<close>: the eleven thresholds of \<open>np.linspace(0.0, 1.0, 11)\<close>, and for one category the
  lists \<open>TP_percentages\<close> and \<open>FP_percentages\<close>.  The two quotients have no guard in the
  source.  The plot is left out: the model returns the curves that would be drawn.
\<close>

definition thresholds :: "rat list" where
  "thresholds = map (\<lambda>i. of_nat i / 10) [0..<11]"

fun roc_loop ::
  "NaiveBayesClassifier \<Rightarrow> string list \<Rightarrow> string list \<Rightarrow> string \<Rightarrow> rat list
   \<Rightarrow> error + rat list \<times> rat list" where
  "roc_loop m x_test y_test category [] = Inr ([], [])"
| "roc_loop m x_test y_test category (threshold # ts) =
     (case classify m x_test y_test threshold category of Inl e \<Rightarrow> Inl e
      | Inr (TP, FP, FN, TN) \<Rightarrow>
          if TP + FN = 0 then Inl ZeroDivisionError
          else if FP + TN = 0 then Inl ZeroDivisionError
          else (case roc_loop m x_test y_test category ts of Inl e \<Rightarrow> Inl e
                | Inr (tps, fps) \<Rightarrow>
                    Inr (of_nat TP / of_nat (TP + FN) # tps, of_nat FP / of_nat (FP + TN) # fps)))"

fun roc ::
  "string list \<Rightarrow> string list \<Rightarrow> string list \<Rightarrow> NaiveBayesClassifier
   \<Rightarrow> error + (string \<times> rat list \<times> rat list) list" where
  "roc x_test y_test [] nb_classifier = Inr []"
| "roc x_test y_test (category # cs) nb_classifier =
     (case roc_loop nb_classifier x_test y_test category thresholds of Inl e \<Rightarrow> Inl e
      | Inr (tps, fps) \<Rightarrow>
          (case roc x_test y_test cs nb_classifier of Inl e \<Rightarrow> Inl e
           | Inr curves \<Rightarrow> Inr ((category, fps, tps) # curves)))"

subsection \<open>What the training data determines\<close>

text \<open>
  The following functions are not in the source: they describe the training data, so that
  the tables built by \<open>fit\<close> can be compared with it.
\<close>

text \<open>The distinct elements of a list in the order of their first occurrence.\<close>

fun unique_acc :: "'a list \<Rightarrow> 'a list \<Rightarrow> 'a list" where
  "unique_acc seen [] = seen"
| "unique_acc seen (x # xs) = unique_acc (if x \<in> set seen then seen else seen @ [x]) xs"

definition unique :: "'a list \<Rightarrow> 'a list" where
  "unique xs = unique_acc [] xs"

text \<open>The tokens of a list of labelled documents, and those emitted under category \<open>c\<close>.\<close>

definition doc_tokens :: "Tokenizer \<Rightarrow> (string \<times> string) list \<Rightarrow> string list" where
  "doc_tokens tk ds = concat (map (\<lambda>d. apply_t tk (fst d)) ds)"

definition label_tokens :: "Tokenizer \<Rightarrow> (string \<times> string) list \<Rightarrow> string \<Rightarrow> string list" where
  "label_tokens tk ds c = doc_tokens tk (filter (\<lambda>d. snd d = c) ds)"

text \<open>
  What the dictionary of a category holds once the tokens \<open>ws\<close> have been counted under it: the
  number of occurrences of every token, except that the key \<open>__total__\<close> holds the number of
  tokens, plus once more the occurrences of a token that is itself spelled \<open>__total__\<close>.
\<close>

definition counted :: "nat dict \<Rightarrow> string list \<Rightarrow> bool" where
  "counted d ws \<longleftrightarrow>
     map_of d ''__total__'' = Some (length ws + count_list ws ''__total__'') \<and>
     (\<forall>w. w \<noteq> ''__total__'' \<longrightarrow>
          map_of d w = (if w \<in> set ws then Some (count_list ws w) else None))"

text \<open>The state of a classifier that has been fed the labelled documents \<open>ds\<close>, in this order.\<close>

definition fed :: "Tokenizer \<Rightarrow> (string \<times> string) list \<Rightarrow> NaiveBayesClassifier \<Rightarrow> bool" where
  "fed tk ds m \<longleftrightarrow>
     tokenizer m = tk \<and>
     vocab m = fset_of_list (doc_tokens tk ds) \<and>
     map fst (class_word_counts m) = unique (map snd ds) \<and>
     (\<forall>c d. map_of (class_word_counts m) c = Some d \<longrightarrow> counted d (label_tokens tk ds c))"

text \<open>The stored total of a category on which \<open>ws\<close> has been counted.\<close>

definition stored_total :: "string list \<Rightarrow> nat" where
  "stored_total ws = length ws + count_list ws ''__total__''"

subsection \<open>The quantities of the specification\<close>

text \<open>
  The prior and the smoothed quotient as the specification words them: the prior of a category
  is the number of tokens emitted under it over the number of training documents, and the
  quotient of a token \<open>t\<close> under a category \<open>c\<close> is \<open>(count(c,t) + 1) / (total(c) + |Vocabulary|)\<close>.
\<close>

definition prior_spec :: "Tokenizer \<Rightarrow> string list \<Rightarrow> string list \<Rightarrow> string \<Rightarrow> rat" where
  "prior_spec tk X y c = of_nat (length (label_tokens tk (zip X y) c)) / of_nat (length y)"

definition smoothed_spec :: "Tokenizer \<Rightarrow> string list \<Rightarrow> string list \<Rightarrow> string \<Rightarrow> string \<Rightarrow> rat" where
  "smoothed_spec tk X y c t =
     of_nat (count_list (label_tokens tk (zip X y) c) t + 1) /
     of_nat (length (label_tokens tk (zip X y) c) + card (set (doc_tokens tk (zip X y))))"

text \<open>
  What the tables hold in general: the stored total, and the value \<open>get(t, 0)\<close> reads for a
  token, which for the token \<open>__total__\<close> is the stored total; and the value of the unrounded
  \<open>calculate_posteriors\<close> in these terms.
\<close>

definition stored_count :: "string list \<Rightarrow> string \<Rightarrow> nat" where
  "stored_count ws t = (if t = ''__total__'' then stored_total ws else count_list ws t)"

definition stored_posterior ::
  "Tokenizer \<Rightarrow> string list \<Rightarrow> string list \<Rightarrow> string list \<Rightarrow> string \<Rightarrow> rat" where
  "stored_posterior tk X y ws c =
     (let W = label_tokens tk (zip X y) c; V = card (set (doc_tokens tk (zip X y)))
      in of_nat (stored_total W) / of_nat (length y) *
         prod_list (map (\<lambda>t. of_nat (stored_count W t + 1) / of_nat (stored_total W + V)) ws))"

text \<open>
  \<open>c\<close> is the key of the first entry of \<open>d\<close> that holds the greatest value: every entry
  before it is strictly smaller, every entry after it is not greater.
\<close>

definition first_max :: "rat dict \<Rightarrow> string \<Rightarrow> bool" where
  "first_max d c \<longleftrightarrow>
     (\<exists>before v after. d = before @ (c, v) # after \<and> (\<forall>p\<in>set before. snd p < v)
        \<and> (\<forall>p\<in>set after. snd p \<le> v))"

subsection \<open>Double precision\<close>

text \<open>
  The value of a floating-point operation of the source is the exact result rounded to the
  nearest double, ties to the even significand: 53 significant bits, with the spacing
  \<open>2\<^sup>-\<^sup>1\<^sup>0\<^sup>7\<^sup>4\<close> below \<open>2\<^sup>-\<^sup>1\<^sup>0\<^sup>2\<^sup>2\<close> (gradual underflow, down to zero).  A double is the rational
  number it denotes.  The exponent is not bounded above: a result of \<open>2\<^sup>1\<^sup>0\<^sup>2\<^sup>4\<close> or more, which
  the source cannot reach without that many tokens or rows, is not modelled.
\<close>

definition pow2 :: "int \<Rightarrow> rat" where
  "pow2 e = power_int 2 e"

text \<open>The number of binary digits of a positive integer.\<close>

function blen :: "int \<Rightarrow> nat" where
  "blen a = (if a \<le> 0 then 0 else Suc (blen (a div 2)))"
  by pat_completeness auto
termination
  by (relation "measure nat") auto

text \<open>\<open>\<lfloor>log\<^sub>2 x\<rfloor>\<close> for a positive \<open>x\<close>, from the lengths of its numerator and denominator.\<close>

definition ilog2 :: "rat \<Rightarrow> int" where
  "ilog2 x =
     (let d = int (blen (fst (quotient_of x))) - int (blen (snd (quotient_of x)))
      in if pow2 d \<le> x then d else d - 1)"

definition round_half_even :: "rat \<Rightarrow> int" where
  "round_half_even q =
     (let f = \<lfloor>q\<rfloor>; r = q - of_int f
      in if r < 1 / 2 then f else if 1 / 2 < r then f + 1 else if even f then f else f + 1)"

definition round_double :: "rat \<Rightarrow> rat" where
  "round_double x =
     (if x = 0 then 0
      else (let a = \<bar>x\<bar>; e = max (ilog2 a) (- 1022); q = pow2 (e - 52)
            in sgn x * of_int (round_half_even (a / q)) * q))"

subsection \<open>The classifier in double precision\<close>

text \<open>
  The same code with every floating-point result rounded: the quotient of two integers is
  correctly rounded, and so is each product.  The loop of \<open>fit\<close> works on integers only and
  is \<open>fit_loop\<close> as it stands.
\<close>

definition prior_entry_fp :: "nat \<Rightarrow> string \<times> nat dict \<Rightarrow> error + string \<times> rat" where
  "prior_entry_fp total_documents lc =
     (case map_of (snd lc) ''__total__'' of None \<Rightarrow> Inl KeyError
      | Some t \<Rightarrow> if total_documents = 0 then Inl ZeroDivisionError
                  else Inr (fst lc, round_double (of_nat t / of_nat total_documents)))"

fun priors_of_fp :: "nat \<Rightarrow> nat dict dict \<Rightarrow> error + rat dict" where
  "priors_of_fp n [] = Inr []"
| "priors_of_fp n (lc # rest) =
     (case prior_entry_fp n lc of Inl e \<Rightarrow> Inl e
      | Inr p \<Rightarrow> (case priors_of_fp n rest of Inl e \<Rightarrow> Inl e | Inr ps \<Rightarrow> Inr (p # ps)))"

definition fit_fp :: "NaiveBayesClassifier \<Rightarrow> string list \<Rightarrow> string list \<Rightarrow> error + NaiveBayesClassifier" where
  "fit_fp m X y =
     (case fit_loop m X y of Inl e \<Rightarrow> Inl e
      | Inr m' \<Rightarrow>
        (case priors_of_fp (length y) (class_word_counts m') of Inl e \<Rightarrow> Inl e
         | Inr ps \<Rightarrow> Inr (m'\<lparr>class_priors := ps\<rparr>)))"

definition likelihood_step_fp :: "NaiveBayesClassifier \<Rightarrow> string \<Rightarrow> rat \<Rightarrow> string \<Rightarrow> error + rat" where
  "likelihood_step_fp m label likelihood word =
     (case map_of (class_word_counts m) label of None \<Rightarrow> Inl KeyError
      | Some d \<Rightarrow>
        (let word_count = get0 d word
         in case map_of d ''__total__'' of None \<Rightarrow> Inl KeyError
            | Some total_words \<Rightarrow>
                if total_words + fcard (vocab m) = 0 then Inl ZeroDivisionError
                else Inr (round_double (likelihood *
                       round_double (of_nat (word_count + 1) / of_nat (total_words + fcard (vocab m)))))))"

fun likelihood_loop_fp :: "NaiveBayesClassifier \<Rightarrow> string \<Rightarrow> rat \<Rightarrow> string list \<Rightarrow> error + rat" where
  "likelihood_loop_fp m label likelihood [] = Inr likelihood"
| "likelihood_loop_fp m label likelihood (word # ws) =
     (case likelihood_step_fp m label likelihood word of Inl e \<Rightarrow> Inl e
      | Inr l' \<Rightarrow> likelihood_loop_fp m label l' ws)"

fun posteriors_loop_fp ::
  "NaiveBayesClassifier \<Rightarrow> string list \<Rightarrow> rat dict \<Rightarrow> string list \<Rightarrow> error + rat dict" where
  "posteriors_loop_fp m words posteriors [] = Inr posteriors"
| "posteriors_loop_fp m words posteriors (label # ls) =
     (case map_of (class_priors m) label of None \<Rightarrow> Inl KeyError
      | Some prior \<Rightarrow>
        (case likelihood_loop_fp m label 1 words of Inl e \<Rightarrow> Inl e
         | Inr likelihood \<Rightarrow>
             posteriors_loop_fp m words
               (AList.update label (round_double (prior * likelihood)) posteriors) ls))"

definition calculate_posteriors_fp :: "NaiveBayesClassifier \<Rightarrow> string \<Rightarrow> error + rat dict" where
  "calculate_posteriors_fp m text =
     posteriors_loop_fp m (apply_t (tokenizer m) text) [] (map fst (class_priors m))"

text \<open>
  The formula of the specification as the code evaluates it: the prior and each smoothed
  quotient rounded, the product accumulated from \<open>1.0\<close> in the order of the tokens with every
  multiplication rounded, and the product with the prior rounded.
\<close>

definition prior_fp :: "Tokenizer \<Rightarrow> string list \<Rightarrow> string list \<Rightarrow> string \<Rightarrow> rat" where
  "prior_fp tk X y c = round_double (prior_spec tk X y c)"

definition smoothed_fp :: "Tokenizer \<Rightarrow> string list \<Rightarrow> string list \<Rightarrow> string \<Rightarrow> string \<Rightarrow> rat" where
  "smoothed_fp tk X y c t = round_double (smoothed_spec tk X y c t)"

definition posterior_fp ::
  "Tokenizer \<Rightarrow> string list \<Rightarrow> string list \<Rightarrow> string list \<Rightarrow> string \<Rightarrow> rat" where
  "posterior_fp tk X y ws c =
     round_double (prior_fp tk X y c *
       foldl (\<lambda>l t. round_double (l * smoothed_fp tk X y c t)) 1 ws)"

text \<open>A text of 360 words, none of which occurs in the scenario.\<close>

definition long_text :: string where
  "long_text = concat (replicate 360 ''zz '')"

subsection \<open>The scenario of the specification\<close>

definition identity_tokenizer :: Tokenizer where
  "identity_tokenizer = \<lparr>filter_w = identity_filter, sanitizer = identity\<rparr>"

definition scenario_X :: "string list" where
  "scenario_X = [''stocks rally today'', ''team wins championship'', ''market crash fears'']"

definition scenario_y :: "string list" where
  "scenario_y = [''finance'', ''sports'', ''finance'']"

text \<open>The model that \<open>fit\<close> leaves behind on the scenario (lemma \<open>fit_scenario\<close> below).\<close>

definition scenario_model :: NaiveBayesClassifier where
  "scenario_model =
     \<lparr>vocab = {|''stocks'', ''rally'', ''today'', ''team'', ''wins'', ''championship'',
                ''market'', ''crash'', ''fears''|},
      tokenizer = identity_tokenizer,
      class_priors = [(''finance'', 2), (''sports'', 1)],
      class_word_counts =
        [(''finance'', [(''__total__'', 6), (''stocks'', 1), (''rally'', 1), (''today'', 1),
                        (''market'', 1), (''crash'', 1), (''fears'', 1)]),
         (''sports'', [(''__total__'', 3), (''team'', 1), (''wins'', 1),
                       (''championship'', 1)])]\<rparr>"

text \<open>A classifier trained on one document that yields no token.\<close>

definition blank_model :: NaiveBayesClassifier where
  "blank_model =
     \<lparr>vocab = {||}, tokenizer = identity_tokenizer, class_priors = [(''a'', 0)],
      class_word_counts = [(''a'', [(''__total__'', 0)])]\<rparr>"

text \<open>Two categories with one one-word document each: every other text scores the same under both.\<close>

definition tie_model :: NaiveBayesClassifier where
  "tie_model =
     \<lparr>vocab = {|''a'', ''b''|}, tokenizer = identity_tokenizer,
      class_priors = [(''x'', 1 / 2), (''y'', 1 / 2)],
      class_word_counts = [(''x'', [(''__total__'', 1), (''a'', 1)]),
                           (''y'', [(''__total__'', 1), (''b'', 1)])]\<rparr>"

text \<open>
  The normalized score of the specification, \<open>posterior[target] / \<Sum>\<^sub>c posterior[c]\<close>, with the
  failures of the source in the source's order, and the decision \<open>score > threshold\<close>.
\<close>

definition score :: "NaiveBayesClassifier \<Rightarrow> string \<Rightarrow> string \<Rightarrow> error + rat" where
  "score m category text =
     (case calculate_posteriors m text of Inl e \<Rightarrow> Inl e
      | Inr posteriors \<Rightarrow>
        (case map_of posteriors category of None \<Rightarrow> Inl KeyError
         | Some cat_prob \<Rightarrow>
             if sum_list (map snd posteriors) = 0 then Inl ZeroDivisionError
             else Inr (cat_prob / sum_list (map snd posteriors))))"

definition positive :: "NaiveBayesClassifier \<Rightarrow> rat \<Rightarrow> string \<Rightarrow> string \<Rightarrow> bool" where
  "positive m umbral category text =
     (case score m category text of Inl e \<Rightarrow> False | Inr s \<Rightarrow> umbral < s)"

subsection \<open>Stratified split\<close>

text \<open>
  A row of the data frame is the list of its cells, \<open>None\<close> for a missing value (NaN); a column is
  designated by its position.  The random generator belongs to numpy and pandas, not to this
  program, and is a parameter: \<open>seed s\<close> is the state of the global generator after
  \<open>np.random.seed(s)\<close>, and \<open>sample g rows\<close> is the outcome of \<open>sample(frac=1)\<close> in state \<open>g\<close>, the
  rows in the drawn order together with the next state.  The state of the global generator is
  passed in and returned.
\<close>

type_synonym row = "string option list"

definition column :: "nat \<Rightarrow> row \<Rightarrow> string option" where
  "column i r = (if i < length r then r ! i else None)"

text \<open>\<open>dropna(how='all', axis=0)\<close>\<close>

definition dropna :: "row list \<Rightarrow> row list" where
  "dropna rows = filter (\<lambda>r. \<not> list_all (\<lambda>c. c = None) r) rows"

text \<open>\<open>int(x)\<close> truncates towards zero.\<close>

definition py_int :: "rat \<Rightarrow> int" where
  "py_int q = (if 0 \<le> q then \<lfloor>q\<rfloor> else \<lceil>q\<rceil>)"

text \<open>The slices \<open>rows[:k]\<close> and \<open>rows[k:]\<close>; a negative \<open>k\<close> counts from the end.\<close>

definition slice_to :: "int \<Rightarrow> 'a list \<Rightarrow> 'a list" where
  "slice_to k xs = (if k < 0 then take (length xs - nat (- k)) xs else take (nat k) xs)"

definition slice_from :: "int \<Rightarrow> 'a list \<Rightarrow> 'a list" where
  "slice_from k xs = (if k < 0 then drop (length xs - nat (- k)) xs else drop (nat k) xs)"

text \<open>
  The loop over the categories of \<open>train_test_split\<close>.  A comparison with NaN is false, so the
  subset of a missing category is empty.  The cut point \<open>int(len(category_subset) * (1 - test_size))\<close>
  is a product of doubles: the length converted, the difference rounded, the product rounded.
  \<open>test_size\<close> is the double the caller passes.
\<close>

fun split_loop ::
  "('g \<Rightarrow> row list \<Rightarrow> row list \<times> 'g) \<Rightarrow> row list \<Rightarrow> rat \<Rightarrow> nat \<Rightarrow> string option list
   \<Rightarrow> row list \<times> row list \<times> 'g \<Rightarrow> row list \<times> row list \<times> 'g" where
  "split_loop sample df test_size stratify_column [] acc = acc"
| "split_loop sample df test_size stratify_column (category # cs) (train_set, test_set, g) =
     (let category_subset =
            filter (\<lambda>r. column stratify_column r = category \<and> category \<noteq> None) df;
          (shuffled, g') = sample g category_subset;
          split_idx = py_int (round_double (round_double (of_nat (length shuffled))
                                            * round_double (1 - test_size)));
          train_subset = dropna (slice_to split_idx shuffled);
          test_subset = dropna (slice_from split_idx shuffled)
      in split_loop sample df test_size stratify_column cs
           (if train_subset \<noteq> [] then train_set @ train_subset else train_set,
            if test_subset \<noteq> [] then test_set @ test_subset else test_set,
            g'))"

text \<open>
  \<open>train_test_split\<close>.  The generator is seeded only when \<open>random_state\<close> is truthy: neither for
  \<open>None\<close> nor for \<open>0\<close>.  \<open>np.random.seed\<close> rejects a seed outside \<open>0 .. 2\<^sup>3\<^sup>2 - 1\<close>.
\<close>

definition train_test_split ::
  "(int \<Rightarrow> 'g) \<Rightarrow> ('g \<Rightarrow> row list \<Rightarrow> row list \<times> 'g) \<Rightarrow> row list \<Rightarrow> rat \<Rightarrow> int option \<Rightarrow> nat \<Rightarrow> 'g
   \<Rightarrow> error + (row list \<times> row list) \<times> 'g" where
  "train_test_split seed sample df test_size random_state stratify_column g =
     (case (case random_state of None \<Rightarrow> Inr g
            | Some s \<Rightarrow> if s = 0 then Inr g
                        else if s < 0 \<or> 2 ^ 32 \<le> s then Inl ValueError else Inr (seed s))
      of Inl e \<Rightarrow> Inl e
      | Inr g0 \<Rightarrow>
        (let (train_set, test_set, g1) =
               split_loop sample df test_size stratify_column
                 (unique (map (column stratify_column) df)) ([], [], g0);
             (train_shuffled, g2) = sample g1 train_set;
             (test_shuffled, g3) = sample g2 test_set
         in Inr ((train_shuffled, test_shuffled), g3)))"

text \<open>
  A stand-in generator, to run the split on: its state is a counter, a sample rotates the rows
  by the counter and advances it.
\<close>

definition counter_seed :: "int \<Rightarrow> nat" where
  "counter_seed s = nat s"

definition counter_sample :: "nat \<Rightarrow> row list \<Rightarrow> row list \<times> nat" where
  "counter_sample g rows =
     (if rows = [] then ([], Suc g)
      else (drop (g mod length rows) rows @ take (g mod length rows) rows, Suc g))"

definition four_rows :: "row list" where
  "four_rows = [[Some ''h1'', Some ''a''], [Some ''h2'', Some ''a''],
                [Some ''h3'', Some ''a''], [Some ''h4'', Some ''a'']]"

section \<open>Evaluation of the scenario\<close>

lemmas eval_defs =
  fit_def fit_doc_def init_def apply_t_def str_split_def isspace_def identity_def
  identity_filter_def identity_tokenizer_def dict_add_def count_word_def prior_entry_def Let_def

lemma fit_scenario: "fit (init identity_tokenizer) scenario_X scenario_y = Inr scenario_model"
  by (simp add: eval_defs scenario_X_def scenario_y_def scenario_model_def)

lemma fit_blank: "fit (init identity_tokenizer) [''''] [''a''] = Inr blank_model"
  by (simp add: eval_defs blank_model_def)

lemma fcard_scenario_vocab: "fcard (vocab scenario_model) = 9"
  by (simp add: scenario_model_def fcard_finsert_if)

section \<open>The tables built by \<open>fit\<close>\<close>

lemma unique_acc_snoc:
  "unique_acc seen (xs @ [x]) =
     (if x \<in> set (unique_acc seen xs) then unique_acc seen xs else unique_acc seen xs @ [x])"
  by (induction xs arbitrary: seen) simp_all

lemma unique_snoc:
  "unique (xs @ [x]) = (if x \<in> set (unique xs) then unique xs else unique xs @ [x])"
  by (simp add: unique_def unique_acc_snoc)

lemma unique_Nil [simp]: "unique [] = []"
  by (simp add: unique_def)

lemma set_unique [simp]: "set (unique xs) = set xs"
  by (induction xs rule: rev_induct) (auto simp: unique_snoc)

lemma distinct_unique [simp]: "distinct (unique xs)"
  by (induction xs rule: rev_induct) (auto simp: unique_snoc)

lemma unique_eq_Nil [simp]: "unique xs = [] \<longleftrightarrow> xs = []"
  by (metis set_unique set_empty)

lemma doc_tokens_append [simp]: "doc_tokens tk (ds @ es) = doc_tokens tk ds @ doc_tokens tk es"
  by (simp add: doc_tokens_def)

lemma doc_tokens_Nil [simp]: "doc_tokens tk [] = []"
  by (simp add: doc_tokens_def)

lemma doc_tokens_single [simp]: "doc_tokens tk [d] = apply_t tk (fst d)"
  by (simp add: doc_tokens_def)

lemma label_tokens_snoc:
  "label_tokens tk (ds @ [(x, l)]) c =
     (if l = c then label_tokens tk ds c @ apply_t tk x else label_tokens tk ds c)"
  by (simp add: label_tokens_def)

lemma label_tokens_unseen: "c \<notin> snd ` set ds \<Longrightarrow> label_tokens tk ds c = []"
proof -
  assume "c \<notin> snd ` set ds"
  then have "filter (\<lambda>d. snd d = c) ds = []"
    by (auto simp: filter_empty_conv)
  then show ?thesis by (simp add: label_tokens_def)
qed

text \<open>The inner loop: every word of the document is counted once more.\<close>

lemma count_word_ok:
  "\<exists>d'. count_word d w = Inr d' \<and> map_of d' = (map_of d)(w \<mapsto> Suc (get0 d w))"
  by (cases "map_of d w") (auto simp: count_word_def dict_add_def get0_def update_conv')

lemma count_words_ok:
  "\<exists>d'. count_words d ws = Inr d' \<and>
     (\<forall>w. map_of d' w = (if w \<in> set ws then Some (get0 d w + count_list ws w) else map_of d w))"
proof (induction ws arbitrary: d)
  case Nil
  then show ?case by simp
next
  case (Cons a ws)
  obtain d1 where d1: "count_word d a = Inr d1" "map_of d1 = (map_of d)(a \<mapsto> Suc (get0 d a))"
    using count_word_ok by blast
  obtain d2 where d2: "count_words d1 ws = Inr d2"
    "\<And>w. map_of d2 w = (if w \<in> set ws then Some (get0 d1 w + count_list ws w) else map_of d1 w)"
    using Cons.IH [of d1] by blast
  have "count_words d (a # ws) = Inr d2"
    using d1 d2 by simp
  moreover have "map_of d2 w =
      (if w \<in> set (a # ws) then Some (get0 d w + count_list (a # ws) w) else map_of d w)" for w
    using d1(2) d2(2) [of w] by (auto simp: get0_def)
  ultimately show ?case by blast
qed

lemma dict_add_total:
  "map_of d ''__total__'' = Some t \<Longrightarrow>
   \<exists>d'. dict_add d ''__total__'' n = Inr d' \<and> map_of d' = (map_of d)(''__total__'' \<mapsto> t + n)"
  by (simp add: dict_add_def update_conv')

text \<open>One document more under a category whose dictionary is in order.\<close>

lemma counted_step:
  assumes "counted d ws"
  shows "\<exists>d1 d2. dict_add d ''__total__'' (length ws') = Inr d1 \<and> count_words d1 ws' = Inr d2
           \<and> counted d2 (ws @ ws')"
proof -
  let ?T = "''__total__''"
  have tot: "map_of d ?T = Some (length ws + count_list ws ?T)"
    and oth: "\<And>w. w \<noteq> ?T \<Longrightarrow> map_of d w = (if w \<in> set ws then Some (count_list ws w) else None)"
    using assms by (auto simp: counted_def)
  obtain d1 where d1: "dict_add d ?T (length ws') = Inr d1"
    "map_of d1 = (map_of d)(?T \<mapsto> length ws + count_list ws ?T + length ws')"
    using dict_add_total [OF tot] by blast
  obtain d2 where d2: "count_words d1 ws' = Inr d2"
    "\<And>w. map_of d2 w = (if w \<in> set ws' then Some (get0 d1 w + count_list ws' w) else map_of d1 w)"
    using count_words_ok [of d1 ws'] by blast
  have "map_of d2 ?T = Some (length (ws @ ws') + count_list (ws @ ws') ?T)"
    using d2(2) [of ?T] d1(2) by (simp add: get0_def)
  moreover have "map_of d2 w = (if w \<in> set (ws @ ws') then Some (count_list (ws @ ws') w) else None)"
    if "w \<noteq> ?T" for w
    using d2(2) [of w] d1(2) oth [OF that] that by (auto simp: get0_def)
  ultimately have "counted d2 (ws @ ws')"
    by (simp add: counted_def)
  with d1(1) d2(1) show ?thesis by blast
qed

lemma counted_fresh: "counted [(''__total__'', 0)] []"
  by (simp add: counted_def)

text \<open>One document more: \<open>fit_doc\<close> cannot fail on a classifier in order, and keeps it in order.\<close>

lemma fit_doc_fed:
  assumes "fed tk ds m"
  shows "\<exists>m'. fit_doc m x l = Inr m' \<and> fed tk (ds @ [(x, l)]) m' \<and> class_priors m' = class_priors m"
proof -
  let ?ws = "apply_t tk x"
  let ?cwc = "class_word_counts m"
  let ?ini = "if map_of ?cwc l = None then AList.update l [(''__total__'', 0)] ?cwc else ?cwc"
  have tk: "tokenizer m = tk"
    and voc: "vocab m = fset_of_list (doc_tokens tk ds)"
    and keys: "map fst ?cwc = unique (map snd ds)"
    and cnt: "\<And>c d. map_of ?cwc c = Some d \<Longrightarrow> counted d (label_tokens tk ds c)"
    using assms by (auto simp: fed_def)
  have unseen: "label_tokens tk ds l = []" if "map_of ?cwc l = None"
  proof -
    have "l \<notin> fst ` set ?cwc" using that by (simp add: map_of_eq_None_iff)
    then have "l \<notin> set (map fst ?cwc)" by simp
    then have "l \<notin> snd ` set ds" unfolding keys by simp
    then show ?thesis by (rule label_tokens_unseen)
  qed
  obtain d where d: "map_of ?ini l = Some d" "counted d (label_tokens tk ds l)"
  proof (cases "map_of ?cwc l")
    case None
    then have "map_of ?ini l = Some [(''__total__'', 0)]"
      by (simp add: update_conv')
    moreover have "counted [(''__total__'', 0)] (label_tokens tk ds l)"
      using unseen [OF None] counted_fresh by simp
    ultimately show ?thesis using that by blast
  next
    case (Some d)
    then show ?thesis using that cnt [OF Some] by simp
  qed
  obtain d1 d2 where step: "dict_add d ''__total__'' (length ?ws) = Inr d1"
    "count_words d1 ?ws = Inr d2" "counted d2 (label_tokens tk ds l @ ?ws)"
    using counted_step [OF d(2), of ?ws] by blast
  define m' where "m' = m\<lparr>vocab := vocab m |\<union>| fset_of_list ?ws,
                           class_word_counts := AList.update l d2 ?ini\<rparr>"
  have run: "fit_doc m x l = Inr m'"
    using d(1) step(1,2) by (simp add: fit_doc_def tk m'_def Let_def)
  have mem: "l \<in> set (map fst ?cwc) \<longleftrightarrow> l \<in> set (unique (map snd ds))"
    unfolding keys by simp
  have keysI: "map fst ?ini = unique (map snd ds @ [l])"
  proof (cases "map_of ?cwc l")
    case None
    then have "l \<notin> set (map fst ?cwc)" by (simp add: map_of_eq_None_iff)
    then show ?thesis using None mem by (simp add: update_keys keys unique_snoc del: set_unique)
  next
    case (Some d)
    then have "l \<in> set (map fst ?cwc)" by (metis map_of_eq_None_iff option.distinct(1) set_map)
    then show ?thesis using Some mem by (simp add: keys unique_snoc del: set_unique)
  qed
  have "l \<in> set (map fst ?ini)"
    unfolding keysI by simp
  then have keys': "map fst (class_word_counts m') = unique (map snd (ds @ [(x, l)]))"
    by (simp add: m'_def update_keys keysI del: set_map)
  have other: "map_of ?ini c = map_of ?cwc c" if "c \<noteq> l" for c
    using that by (simp add: update_conv')
  have cnt': "counted d' (label_tokens tk (ds @ [(x, l)]) c)"
    if "map_of (class_word_counts m') c = Some d'" for c d'
  proof (cases "c = l")
    case True
    then have "d' = d2" using that by (simp add: m'_def update_conv')
    then show ?thesis using step(3) True by (simp add: label_tokens_snoc)
  next
    case False
    then have "map_of ?cwc c = Some d'"
      using that other [OF False] by (simp add: m'_def update_conv')
    then show ?thesis using cnt False by (simp add: label_tokens_snoc)
  qed
  have "fed tk (ds @ [(x, l)]) m'"
    unfolding fed_def using keys' cnt' by (simp add: m'_def tk voc)
  moreover have "class_priors m' = class_priors m"
    by (simp add: m'_def)
  ultimately show ?thesis using run by blast
qed

lemma fit_loop_fed:
  assumes "fed tk ds m" and "length X \<le> length y"
  shows "\<exists>m'. fit_loop m X y = Inr m' \<and> fed tk (ds @ zip X y) m' \<and> class_priors m' = class_priors m"
  using assms
proof (induction X arbitrary: m ds y)
  case Nil
  then show ?case by simp
next
  case (Cons x X)
  then obtain l ys where y: "y = l # ys" by (cases y) auto
  obtain m1 where m1: "fit_doc m x l = Inr m1" "fed tk (ds @ [(x, l)]) m1"
    "class_priors m1 = class_priors m"
    using fit_doc_fed [OF Cons.prems(1)] by blast
  have "length X \<le> length ys" using Cons.prems(2) y by simp
  from Cons.IH [OF m1(2) this] obtain m' where
    "fit_loop m1 X ys = Inr m'" "fed tk ((ds @ [(x, l)]) @ zip X ys) m'"
    "class_priors m' = class_priors m1"
    by blast
  then show ?case using m1 y by simp
qed

lemma fit_loop_short: "length y < length X \<Longrightarrow> fed tk ds m \<Longrightarrow> fit_loop m X y = Inl IndexError"
proof (induction X arbitrary: m ds y)
  case Nil
  then show ?case by simp
next
  case (Cons x X)
  show ?case
  proof (cases y)
    case Nil
    then show ?thesis by simp
  next
    case (Cons l ys)
    obtain m1 where m1: "fit_doc m x l = Inr m1" "fed tk (ds @ [(x, l)]) m1"
      using fit_doc_fed [OF Cons.prems(2)] by blast
    have "length ys < length X" using Cons.prems(1) Cons by simp
    from Cons.IH [OF this m1(2)] show ?thesis using m1(1) Cons by simp
  qed
qed

lemma fed_init: "fed tk [] (init tk)"
  by (simp add: fed_def init_def)

lemma priors_of_ok:
  assumes "\<And>c d. (c, d) \<in> set cwc \<Longrightarrow> map_of d ''__total__'' = Some (T c)" and "0 < n"
  shows "priors_of n cwc = Inr (map (\<lambda>c. (c, of_nat (T c) / of_nat n)) (map fst cwc))"
  using assms(1)
proof (induction cwc)
  case Nil
  then show ?case by simp
next
  case (Cons a cwc)
  have "map_of (snd a) ''__total__'' = Some (T (fst a))"
    using Cons.prems [of "fst a" "snd a"] by simp
  moreover have "priors_of n cwc = Inr (map (\<lambda>c. (c, of_nat (T c) / of_nat n)) (map fst cwc))"
    using Cons by simp
  ultimately show ?case using \<open>0 < n\<close> by (simp add: prior_entry_def)
qed

text \<open>
  The classifier after a successful \<open>fit\<close> on aligned sequences of documents and labels.
\<close>

lemma fit_trained:
  assumes "length X = length y" and "X \<noteq> []"
  shows "\<exists>m. fit (init tk) X y = Inr m \<and> fed tk (zip X y) m \<and>
           class_priors m =
             map (\<lambda>c. (c, of_nat (stored_total (label_tokens tk (zip X y) c)) / of_nat (length y)))
               (unique y)"
proof -
  obtain m1 where m1: "fit_loop (init tk) X y = Inr m1" "fed tk (zip X y) m1"
    using fit_loop_fed [OF fed_init, of X y tk] assms(1) by auto
  let ?T = "\<lambda>c. stored_total (label_tokens tk (zip X y) c)"
  have keys: "map fst (class_word_counts m1) = unique y"
    using m1(2) assms(1) by (simp add: fed_def)
  have dist: "distinct (map fst (class_word_counts m1))"
    unfolding keys by simp
  have "map_of d ''__total__'' = Some (?T c)" if "(c, d) \<in> set (class_word_counts m1)" for c d
  proof -
    have "map_of (class_word_counts m1) c = Some d"
      using that dist by simp
    then have "counted d (label_tokens tk (zip X y) c)"
      using m1(2) by (simp add: fed_def)
    then show ?thesis by (simp add: counted_def stored_total_def)
  qed
  moreover have "0 < length y" using assms by auto
  ultimately have pr: "priors_of (length y) (class_word_counts m1)
      = Inr (map (\<lambda>c. (c, of_nat (?T c) / of_nat (length y))) (unique y))"
    using priors_of_ok [of "class_word_counts m1" ?T "length y"] keys by simp
  let ?m = "m1\<lparr>class_priors := map (\<lambda>c. (c, of_nat (?T c) / of_nat (length y))) (unique y)\<rparr>"
  have "fit (init tk) X y = Inr ?m"
    using m1(1) pr by (simp add: fit_def)
  moreover have "fed tk (zip X y) ?m"
    using m1(2) by (simp add: fed_def)
  ultimately show ?thesis by auto
qed

section \<open>Training\<close>

text \<open>
  C6 (as amended).  After \<open>fit\<close> on the three documents of the scenario with the identity
  filter and the identity sanitizer, the total of \<open>finance\<close> is 6, the total of \<open>sports\<close> is 3,
  and the vocabulary has 9 distinct tokens (three documents of three words, all different).
\<close>

theorem scenario_totals_and_vocab:
  "\<exists>m fin spo. fit (init identity_tokenizer) scenario_X scenario_y = Inr m
     \<and> map_of (class_word_counts m) ''finance'' = Some fin \<and> map_of fin ''__total__'' = Some 6
     \<and> map_of (class_word_counts m) ''sports'' = Some spo \<and> map_of spo ''__total__'' = Some 3
     \<and> fcard (vocab m) = 9"
  by (simp add: fit_scenario fcard_scenario_vocab) (simp add: scenario_model_def)

text \<open>The vocabulary of the scenario does not have 8 tokens.\<close>

theorem scenario_vocab_not_8:
  "map_sum id (fcard \<circ> vocab) (fit (init identity_tokenizer) scenario_X scenario_y) = Inr 9
   \<and> map_sum id (fcard \<circ> vocab) (fit (init identity_tokenizer) scenario_X scenario_y) \<noteq> Inr 8"
  by (simp add: fit_scenario fcard_scenario_vocab)

text \<open>
  C2 (as amended).  \<open>fit\<close> with zero documents on a newly constructed classifier returns
  normally and leaves the vocabulary, the counts and the priors empty: the comprehension that
  computes the priors ranges over no category, so nothing is divided.
\<close>

theorem fit_no_documents: "fit (init tk) [] y = Inr (init tk)"
  by (simp add: fit_def init_def)

text \<open>\<open>fit\<close> on the empty training set does not fail.\<close>

theorem fit_empty_returns:
  "fit (init identity_tokenizer) [] [] = Inr (init identity_tokenizer)"
  by (simp add: fit_def init_def)

text \<open>
  The division by zero is reached only when a category is already there, that is when an
  already trained classifier is fitted again with no label.
\<close>

lemma fit_again_no_labels: "fit scenario_model [] [] = Inl ZeroDivisionError"
  by (simp add: fit_def scenario_model_def prior_entry_def)

section \<open>Metrics and the ROC sweep\<close>

text \<open>\<open>compute_metrics\<close> guards each of its four quotients.\<close>

lemma precision_zero_denominator: "cTP v + cFP v = 0 \<Longrightarrow> Precision (metrics_of v) = 0"
  by (simp add: metrics_of_def Let_def)

lemma recall_zero_denominator: "cTP v + cFN v = 0 \<Longrightarrow> Recall (metrics_of v) = 0"
  by (simp add: metrics_of_def Let_def)

lemma accuracy_zero_denominator:
  "cTP v + cFP v + cTN v + cFN v = 0 \<Longrightarrow> Accuracy (metrics_of v) = 0"
  by (simp add: metrics_of_def Let_def)

lemma f1_zero_denominator:
  "Precision (metrics_of v) + Recall (metrics_of v) = 0 \<Longrightarrow> F1_Score (metrics_of v) = 0"
  by (simp add: metrics_of_def Let_def)

lemma compute_metrics_absent_category:
  "compute_metrics [(c, \<lparr>cTP = 0, cFP = 0, cTN = 0, cFN = 0\<rparr>)]
     = [(c, \<lparr>Accuracy = 0, Precision = 0, Recall = 0, F1_Score = 0\<rparr>)]"
  by (simp add: compute_metrics_def metrics_of_def)

text \<open>
  C5.  The ROC sweep divides \<open>TP\<close> by \<open>TP + FN\<close> and \<open>FP\<close> by \<open>FP + TN\<close> with no guard.  On
  the scenario's model, with the one evaluated document labelled \<open>sports\<close>, the category
  \<open>finance\<close> is absent from the evaluated set: \<open>TP + FN = 0\<close> and \<open>roc\<close> raises.
\<close>

theorem roc_absent_category_raises:
  "fit (init identity_tokenizer) scenario_X scenario_y = Inr scenario_model
   \<and> classify scenario_model [''team wins''] [''sports''] 0 ''finance'' = Inr (0, 1, 0, 0)
   \<and> roc [''team wins''] [''sports''] [''finance''] scenario_model = Inl ZeroDivisionError"
proof -
  have "classify scenario_model [''team wins''] [''sports''] 0 ''finance'' = Inr (0, 1, 0, 0)"
    by (simp add: classify_def calculate_posteriors_def likelihood_step_def get0_def
        scenario_model_def eval_defs fcard_finsert_if fcard_fempty)
  then have "roc [''team wins''] [''sports''] [''finance''] scenario_model = Inl ZeroDivisionError"
    by (simp add: thresholds_def upt_rec)
  then show ?thesis
    using fit_scenario \<open>classify scenario_model [''team wins''] [''sports''] 0 ''finance'' = Inr (0, 1, 0, 0)\<close>
    by simp
qed

section \<open>Posteriors\<close>

lemma counted_get0: "counted d ws \<Longrightarrow> get0 d t = stored_count ws t"
  by (auto simp: counted_def get0_def stored_count_def stored_total_def count_list_0_iff)

lemma likelihood_loop_ok:
  assumes "map_of (class_word_counts m) c = Some d" and "map_of d ''__total__'' = Some T"
    and "0 < T + fcard (vocab m)"
  shows "likelihood_loop m c a ws =
           Inr (a * prod_list (map (\<lambda>t. of_nat (get0 d t + 1) / of_nat (T + fcard (vocab m))) ws))"
proof (induction ws arbitrary: a)
  case Nil
  then show ?case by simp
next
  case (Cons w ws)
  have "likelihood_step m c a w = Inr (a * (of_nat (get0 d w + 1) / of_nat (T + fcard (vocab m))))"
    using assms by (auto simp: likelihood_step_def fcard_fempty)
  then show ?case using Cons.IH by (simp add: mult.assoc)
qed

lemma update_fresh: "k \<notin> fst ` set al \<Longrightarrow> AList.update k v al = al @ [(k, v)]"
  by (induction al) auto

lemma posteriors_loop_ok:
  assumes "distinct ls" and "set ls \<inter> fst ` set post = {}"
    and "\<And>c. c \<in> set ls \<Longrightarrow> map_of (class_priors m) c = Some (pr c)"
    and "\<And>c. c \<in> set ls \<Longrightarrow> likelihood_loop m c 1 ws = Inr (lk c)"
  shows "posteriors_loop m ws post ls = Inr (post @ map (\<lambda>c. (c, pr c * lk c)) ls)"
  using assms
proof (induction ls arbitrary: post)
  case Nil
  then show ?case by simp
next
  case (Cons l ls)
  have fresh: "l \<notin> fst ` set post" using Cons.prems(2) by auto
  let ?post = "AList.update l (pr l * lk l) post"
  have up: "?post = post @ [(l, pr l * lk l)]"
    using fresh by (rule update_fresh)
  have "set ls \<inter> fst ` set ?post = {}"
    using Cons.prems(1,2) unfolding up by auto
  then have "posteriors_loop m ws ?post ls = Inr (?post @ map (\<lambda>c. (c, pr c * lk c)) ls)"
    using Cons.IH [of ?post] Cons.prems by simp
  then show ?case
    using Cons.prems(3) [of l] Cons.prems(4) [of l] up by simp
qed

lemma posteriors_loop_keys:
  "posteriors_loop m ws post ls = Inr ps \<Longrightarrow> fst ` set ps = fst ` set post \<union> set ls"
proof (induction ls arbitrary: post)
  case Nil
  then show ?case by simp
next
  case (Cons l ls)
  then obtain pr lk where "map_of (class_priors m) l = Some pr" "likelihood_loop m l 1 ws = Inr lk"
    "posteriors_loop m ws (AList.update l (pr * lk) post) ls = Inr ps"
    by (auto split: option.splits sum.splits)
  from Cons.IH [OF this(3)] show ?case
    by (simp add: dom_update)
qed

lemma calculate_posteriors_keys:
  "calculate_posteriors m text = Inr ps \<Longrightarrow> fst ` set ps = fst ` set (class_priors m)"
  using posteriors_loop_keys [of m _ "[]" _ ps] by (simp add: calculate_posteriors_def)

lemma fcard_fset_of_list: "fcard (fset_of_list xs) = card (set xs)"
  by (simp add: fcard.rep_eq fset_of_list.rep_eq)

lemma map_of_map_key: "c \<in> set ks \<Longrightarrow> map_of (map (\<lambda>k. (k, f k)) ks) c = Some (f c)"
  by (induction ks) auto

lemma fit_Nil: "fit (init tk) [] y = Inr (init tk)"
  by (simp add: fit_def init_def)

lemma fit_prior_keys:
  assumes "fit (init tk) X y = Inr m" and "length X = length y"
  shows "map fst (class_priors m) = unique y"
proof (cases "X = []")
  case True
  then have "m = init tk" and "y = []" using assms by (simp_all add: fit_Nil)
  then show ?thesis by (simp add: init_def)
next
  case False
  then show ?thesis
    using fit_trained [OF assms(2) False, of tk] assms(1) by (auto simp: comp_def)
qed

text \<open>
  The unrounded posteriors of a trained classifier, in terms of the training data.  They are
  defined as soon as training emitted one token, or the text yields none; this is what the
  choice of a category and the keys of the dictionary rest on.
\<close>

lemma trained_posteriors:
  assumes fit: "fit (init tk) X y = Inr m" and len: "length X = length y" and ne: "X \<noteq> []"
    and tok: "doc_tokens tk (zip X y) \<noteq> [] \<or> apply_t tk text = []"
  shows "calculate_posteriors m text =
           Inr (map (\<lambda>c. (c, stored_posterior tk X y (apply_t tk text) c)) (unique y))"
proof -
  let ?ds = "zip X y"
  let ?ws = "apply_t tk text"
  let ?V = "card (set (doc_tokens tk ?ds))"
  let ?W = "\<lambda>c. label_tokens tk ?ds c"
  let ?pr = "\<lambda>c. (of_nat (stored_total (?W c)) / of_nat (length y) :: rat)"
  let ?lk = "\<lambda>c. (prod_list (map (\<lambda>t. of_nat (stored_count (?W c) t + 1) /
                      of_nat (stored_total (?W c) + ?V)) ?ws) :: rat)"
  from fit_trained [OF len ne, of tk] fit
  have fed: "fed tk ?ds m" and pri: "class_priors m = map (\<lambda>c. (c, ?pr c)) (unique y)"
    by auto
  have tkm: "tokenizer m = tk" and voc: "fcard (vocab m) = ?V"
    using fed by (auto simp: fed_def fcard_fset_of_list)
  have keys: "map fst (class_word_counts m) = unique y"
    using fed len by (simp add: fed_def)
  have prior: "map_of (class_priors m) c = Some (?pr c)" if "c \<in> set (unique y)" for c
    unfolding pri using that by (rule map_of_map_key)
  have lik: "likelihood_loop m c 1 ?ws = Inr (?lk c)" if c: "c \<in> set (unique y)" for c
  proof -
    have "c \<in> fst ` set (class_word_counts m)"
      using c keys by (metis set_map)
    then obtain d where d: "map_of (class_word_counts m) c = Some d"
      by (metis map_of_eq_None_iff not_Some_eq)
    then have cd: "counted d (?W c)"
      using fed by (simp add: fed_def)
    then have T: "map_of d ''__total__'' = Some (stored_total (?W c))"
      by (simp add: counted_def stored_total_def)
    show ?thesis
    proof (cases "?ws = []")
      case True
      then show ?thesis by simp
    next
      case False
      then have "doc_tokens tk ?ds \<noteq> []" using tok by simp
      then have "0 < ?V" by (simp add: card_gt_0_iff)
      then have pos: "0 < stored_total (?W c) + fcard (vocab m)"
        using voc by simp
      show ?thesis
        using likelihood_loop_ok [OF d T pos, of 1 ?ws] counted_get0 [OF cd] voc by simp
    qed
  qed
  have "posteriors_loop m ?ws [] (unique y) = Inr ([] @ map (\<lambda>c. (c, ?pr c * ?lk c)) (unique y))"
    by (rule posteriors_loop_ok) (use prior lik in simp_all)
  moreover have "map fst (class_priors m) = unique y"
    by (simp add: pri comp_def)
  ultimately show ?thesis
    by (simp add: calculate_posteriors_def tkm stored_posterior_def Let_def)
qed

lemma scenario_doc_tokens:
  "doc_tokens identity_tokenizer (zip scenario_X scenario_y) =
     [''stocks'', ''rally'', ''today'', ''team'', ''wins'', ''championship'', ''market'', ''crash'',
      ''fears'']"
  by (simp add: doc_tokens_def scenario_X_def scenario_y_def eval_defs)

lemma stocks_fall_tokens: "apply_t identity_tokenizer ''stocks fall'' = [''stocks'', ''fall'']"
  by (simp add: eval_defs)

section \<open>Rounding to a double\<close>

lemma pow2_pos [simp]: "0 < pow2 e"
  by (simp add: pow2_def)

lemma pow2_add: "pow2 (a + b) = pow2 a * pow2 b"
  by (simp add: pow2_def power_int_add)

lemma pow2_diff: "pow2 (a - b) = pow2 a / pow2 b"
  by (simp add: pow2_def power_int_diff)

lemma pow2_le_iff [simp]: "pow2 a \<le> pow2 b \<longleftrightarrow> a \<le> b"
proof
  assume le: "pow2 a \<le> pow2 b"
  show "a \<le> b"
  proof (rule ccontr)
    assume "\<not> a \<le> b"
    then have "b < a" by simp
    then have "pow2 b < pow2 a"
      unfolding pow2_def by (intro power_int_strict_increasing) simp_all
    then show False using le by simp
  qed
next
  assume "a \<le> b"
  then show "pow2 a \<le> pow2 b"
    unfolding pow2_def by (intro power_int_increasing) simp_all
qed

lemma pow2_nat: "0 \<le> e \<Longrightarrow> pow2 e = of_int (2 ^ nat e)"
  by (simp add: pow2_def power_int_nonneg_exp)

declare blen.simps [simp del]

lemma blen_bounds: "0 < a \<Longrightarrow> 2 ^ (blen a - 1) \<le> a \<and> a < 2 ^ blen a"
proof (induction a rule: blen.induct)
  case (1 a)
  show ?case
  proof (cases "a = 1")
    case True
    have "blen 0 = 0" by (simp add: blen.simps)
    then have "blen 1 = 1" by (simp add: blen.simps [of 1])
    then show ?thesis using True by simp
  next
    case False
    then have h: "0 < a div 2" using "1.prems" by simp
    have a: "\<not> a \<le> 0" using "1.prems" by simp
    let ?b = "blen (a div 2)"
    have IH: "2 ^ (?b - 1) \<le> a div 2" "a div 2 < 2 ^ ?b"
      using "1.IH" [OF a h] by simp_all
    have b: "?b \<noteq> 0"
      using h by (simp add: blen.simps [of "a div 2"])
    then have "(2::int) ^ ?b = 2 * 2 ^ (?b - 1)"
      by (cases ?b) simp_all
    then have lo: "2 ^ ?b \<le> a" using IH(1) by linarith
    have "a < 2 * 2 ^ ?b" using IH(2) by linarith
    then have hi: "a < 2 ^ Suc ?b" by simp
    have "blen a = Suc ?b" using a by (simp add: blen.simps [of a])
    then show ?thesis using lo hi by simp
  qed
qed

text \<open>\<open>ilog2\<close> does not exceed the logarithm.\<close>

lemma pow2_ilog2_le:
  assumes "0 < x"
  shows "pow2 (ilog2 x) \<le> x"
proof -
  obtain a b where q: "quotient_of x = (a, b)" by (cases "quotient_of x")
  then have x: "x = of_int a / of_int b" and b: "0 < b"
    by (auto dest: quotient_of_div quotient_of_denom_pos)
  have a: "0 < a"
    using assms b unfolding x by (simp add: zero_less_divide_iff)
  let ?A = "blen a" and ?B = "blen b"
  have A: "2 ^ (?A - 1) \<le> a" and B: "b < 2 ^ ?B"
    using blen_bounds [OF a] blen_bounds [OF b] by auto
  have "?A \<noteq> 0" using a by (simp add: blen.simps [of a])
  then have A1: "int ?A - 1 = int (?A - 1)" by simp
  have "(of_int (2 ^ (?A - 1)) :: rat) \<le> of_int a"
    using A by (simp only: of_int_le_iff)
  then have lo: "pow2 (int ?A - 1) \<le> of_int a"
    unfolding A1 pow2_def by simp
  have "(of_int b :: rat) < of_int (2 ^ ?B)"
    using B by (simp only: of_int_less_iff)
  then have hi: "of_int b \<le> pow2 (int ?B)"
    unfolding pow2_def by simp
  have "pow2 (int ?A - int ?B - 1) = pow2 (int ?A - 1) / pow2 (int ?B)"
    using pow2_diff [of "int ?A - 1" "int ?B"] by (simp add: algebra_simps)
  also have "\<dots> \<le> of_int a / of_int b"
    using lo hi a b by (intro frac_le) simp_all
  finally have low: "pow2 (int ?A - int ?B - 1) \<le> x"
    unfolding x .
  show ?thesis
    using low by (simp add: ilog2_def q Let_def)
qed

lemma ilog2_le:
  assumes "0 < x" and "x \<le> pow2 k"
  shows "ilog2 x \<le> k"
proof -
  have "pow2 (ilog2 x) \<le> pow2 k"
    using pow2_ilog2_le [OF assms(1)] assms(2) by (rule order_trans)
  then show ?thesis by (simp only: pow2_le_iff)
qed

lemma round_half_even_nonneg: "0 \<le> q \<Longrightarrow> 0 \<le> round_half_even q"
  by (auto simp: round_half_even_def Let_def)

lemma round_half_even_le: "q \<le> of_int n \<Longrightarrow> round_half_even q \<le> n"
proof -
  assume le: "q \<le> of_int n"
  then have f: "\<lfloor>q\<rfloor> \<le> n" by (simp add: floor_le_iff)
  show ?thesis
  proof (cases "q = of_int n")
    case True
    then show ?thesis by (simp add: round_half_even_def)
  next
    case False
    then have "q < of_int n" using le by simp
    then have "\<lfloor>q\<rfloor> < n" by (simp add: floor_less_iff)
    then show ?thesis using f by (auto simp: round_half_even_def Let_def)
  qed
qed

lemma round_half_even_small: "0 \<le> q \<Longrightarrow> q < 1 / 2 \<Longrightarrow> round_half_even q = 0"
proof -
  assume q: "0 \<le> q" "q < 1 / 2"
  then have "\<lfloor>q\<rfloor> = 0" by (simp add: floor_eq_iff)
  then show ?thesis using q by (simp add: round_half_even_def)
qed

text \<open>Rounding keeps the sign of a non-negative number.\<close>

lemma round_double_nonneg: "0 \<le> x \<Longrightarrow> 0 \<le> round_double x"
proof (cases "x = 0")
  case True
  then show ?thesis by (simp add: round_double_def)
next
  case False
  assume "0 \<le> x"
  then have x: "0 < x" using False by simp
  then have "0 \<le> round_half_even (\<bar>x\<bar> / pow2 (max (ilog2 \<bar>x\<bar>) (- 1022) - 52))"
    by (intro round_half_even_nonneg divide_nonneg_pos) simp_all
  then have "0 \<le> of_int (round_half_even (\<bar>x\<bar> / pow2 (max (ilog2 \<bar>x\<bar>) (- 1022) - 52)))
                 * pow2 (max (ilog2 \<bar>x\<bar>) (- 1022) - 52)"
    by (intro mult_nonneg_nonneg) (simp_all add: less_imp_le)
  then show ?thesis
    using x by (simp add: round_double_def Let_def)
qed

text \<open>A power of two from \<open>2\<^sup>-\<^sup>1\<^sup>0\<^sup>7\<^sup>4\<close> on is a double, so rounding does not step over it.\<close>

lemma round_double_le_pow2:
  assumes "0 \<le> x" and "x \<le> pow2 k" and "- 1074 \<le> k"
  shows "round_double x \<le> pow2 k"
proof (cases "x = 0")
  case True
  then show ?thesis using pow2_pos [of k] by (simp add: round_double_def less_imp_le)
next
  case False
  then have x: "0 < x" using assms(1) by simp
  define e where "e = max (ilog2 x) (- 1022)"
  define q where "q = pow2 (e - 52)"
  have "ilog2 x \<le> k" using x assms(2) by (rule ilog2_le)
  then have e: "0 \<le> k - (e - 52)"
    using assms(3) by (simp add: e_def)
  have q: "0 < q" by (simp add: q_def)
  have "x / q \<le> pow2 k / q"
    using assms(2) q by (simp add: divide_right_mono)
  also have "\<dots> = pow2 (k - (e - 52))"
    by (simp add: q_def pow2_diff)
  also have "\<dots> = of_int (2 ^ nat (k - (e - 52)))"
    using e by (rule pow2_nat)
  finally have "round_half_even (x / q) \<le> 2 ^ nat (k - (e - 52))"
    by (rule round_half_even_le)
  then have "(of_int (round_half_even (x / q)) :: rat) \<le> of_int (2 ^ nat (k - (e - 52)))"
    by (simp only: of_int_le_iff)
  then have "of_int (round_half_even (x / q)) * q \<le> of_int (2 ^ nat (k - (e - 52))) * q"
    using q by (simp add: mult_right_mono)
  also have "\<dots> = pow2 (k - (e - 52)) * pow2 (e - 52)"
    using pow2_nat [OF e] by (simp add: q_def)
  also have "\<dots> = pow2 k"
    using pow2_add [of "k - (e - 52)" "e - 52"] by simp
  finally show ?thesis
    using x by (simp add: round_double_def Let_def e_def q_def)
qed

text \<open>Below half the smallest positive double the result is zero.\<close>

lemma round_double_underflow:
  assumes "0 \<le> x" and "x < pow2 (- 1075)"
  shows "round_double x = 0"
proof (cases "x = 0")
  case True
  then show ?thesis by (simp add: round_double_def)
next
  case False
  then have x: "0 < x" using assms(1) by simp
  have "ilog2 x \<le> - 1075"
    using x assms(2) by (intro ilog2_le) simp_all
  then have e: "max (ilog2 x) (- 1022) = - 1022" by simp
  have "x / pow2 (- 1074) < pow2 (- 1075) / pow2 (- 1074)"
    using assms(2) by (simp add: divide_strict_right_mono)
  also have "\<dots> = pow2 (- 1)"
    using pow2_diff [of "- 1075" "- 1074"] by simp
  also have "\<dots> = 1 / 2"
    by (simp add: pow2_def)
  finally have "round_half_even (x / pow2 (- 1074)) = 0"
    using x by (intro round_half_even_small) simp_all
  then show ?thesis
    using x by (simp add: round_double_def Let_def e)
qed

lemma round_double_0 [simp]: "round_double 0 = 0"
  by (simp add: round_double_def)

section \<open>Posteriors in double precision\<close>

lemma priors_of_fp_ok:
  assumes "\<And>c d. (c, d) \<in> set cwc \<Longrightarrow> map_of d ''__total__'' = Some (T c)" and "0 < n"
  shows "priors_of_fp n cwc
           = Inr (map (\<lambda>c. (c, round_double (of_nat (T c) / of_nat n))) (map fst cwc))"
  using assms(1)
proof (induction cwc)
  case Nil
  then show ?case by simp
next
  case (Cons a cwc)
  have "map_of (snd a) ''__total__'' = Some (T (fst a))"
    using Cons.prems [of "fst a" "snd a"] by simp
  moreover have "priors_of_fp n cwc
      = Inr (map (\<lambda>c. (c, round_double (of_nat (T c) / of_nat n))) (map fst cwc))"
    using Cons by simp
  ultimately show ?case using \<open>0 < n\<close> by (simp add: prior_entry_fp_def)
qed

lemma fit_fp_trained:
  assumes "length X = length y" and "X \<noteq> []"
  shows "\<exists>m. fit_fp (init tk) X y = Inr m \<and> fed tk (zip X y) m \<and>
           class_priors m =
             map (\<lambda>c. (c, round_double
                    (of_nat (stored_total (label_tokens tk (zip X y) c)) / of_nat (length y))))
               (unique y)"
proof -
  obtain m1 where m1: "fit_loop (init tk) X y = Inr m1" "fed tk (zip X y) m1"
    using fit_loop_fed [OF fed_init, of X y tk] assms(1) by auto
  let ?T = "\<lambda>c. stored_total (label_tokens tk (zip X y) c)"
  have keys: "map fst (class_word_counts m1) = unique y"
    using m1(2) assms(1) by (simp add: fed_def)
  have dist: "distinct (map fst (class_word_counts m1))"
    unfolding keys by simp
  have "map_of d ''__total__'' = Some (?T c)" if "(c, d) \<in> set (class_word_counts m1)" for c d
  proof -
    have "map_of (class_word_counts m1) c = Some d"
      using that dist by simp
    then have "counted d (label_tokens tk (zip X y) c)"
      using m1(2) by (simp add: fed_def)
    then show ?thesis by (simp add: counted_def stored_total_def)
  qed
  moreover have "0 < length y" using assms by auto
  ultimately have pr: "priors_of_fp (length y) (class_word_counts m1)
      = Inr (map (\<lambda>c. (c, round_double (of_nat (?T c) / of_nat (length y)))) (unique y))"
    using priors_of_fp_ok [of "class_word_counts m1" ?T "length y"] keys by simp
  let ?m = "m1\<lparr>class_priors :=
              map (\<lambda>c. (c, round_double (of_nat (?T c) / of_nat (length y)))) (unique y)\<rparr>"
  have "fit_fp (init tk) X y = Inr ?m"
    using m1(1) pr by (simp add: fit_fp_def)
  moreover have "fed tk (zip X y) ?m"
    using m1(2) by (simp add: fed_def)
  ultimately show ?thesis by auto
qed

lemma likelihood_loop_fp_ok:
  assumes "map_of (class_word_counts m) c = Some d" and "map_of d ''__total__'' = Some T"
    and "0 < T + fcard (vocab m)"
  shows "likelihood_loop_fp m c a ws =
           Inr (foldl (\<lambda>l t. round_double (l *
                  round_double (of_nat (get0 d t + 1) / of_nat (T + fcard (vocab m))))) a ws)"
proof (induction ws arbitrary: a)
  case Nil
  then show ?case by simp
next
  case (Cons w ws)
  have "likelihood_step_fp m c a w =
      Inr (round_double (a * round_double (of_nat (get0 d w + 1) / of_nat (T + fcard (vocab m)))))"
    using assms by (auto simp: likelihood_step_fp_def fcard_fempty)
  then show ?case using Cons.IH by simp
qed

lemma posteriors_loop_fp_ok:
  assumes "distinct ls" and "set ls \<inter> fst ` set post = {}"
    and "\<And>c. c \<in> set ls \<Longrightarrow> map_of (class_priors m) c = Some (pr c)"
    and "\<And>c. c \<in> set ls \<Longrightarrow> likelihood_loop_fp m c 1 ws = Inr (lk c)"
  shows "posteriors_loop_fp m ws post ls
           = Inr (post @ map (\<lambda>c. (c, round_double (pr c * lk c))) ls)"
  using assms
proof (induction ls arbitrary: post)
  case Nil
  then show ?case by simp
next
  case (Cons l ls)
  have fresh: "l \<notin> fst ` set post" using Cons.prems(2) by auto
  let ?post = "AList.update l (round_double (pr l * lk l)) post"
  have up: "?post = post @ [(l, round_double (pr l * lk l))]"
    using fresh by (rule update_fresh)
  have "set ls \<inter> fst ` set ?post = {}"
    using Cons.prems(1,2) unfolding up by auto
  then have "posteriors_loop_fp m ws ?post ls
      = Inr (?post @ map (\<lambda>c. (c, round_double (pr c * lk c))) ls)"
    using Cons.IH [of ?post] Cons.prems by simp
  then show ?case
    using Cons.prems(3) [of l] Cons.prems(4) [of l] up by simp
qed

lemma foldl_round_cong:
  "(\<And>t. t \<in> set ws \<Longrightarrow> f t = g t) \<Longrightarrow>
   foldl (\<lambda>l t. round_double (l * f t)) a ws = foldl (\<lambda>l t. round_double (l * g t)) a ws"
  by (induction ws arbitrary: a) simp_all

text \<open>
  The posteriors of a classifier trained in double precision, in terms of the training data.
\<close>

lemma trained_posteriors_fp:
  assumes fit: "fit_fp (init tk) X y = Inr m" and len: "length X = length y"
    and tok: "doc_tokens tk (zip X y) \<noteq> []"
    and tr: "''__total__'' \<notin> set (doc_tokens tk (zip X y))"
    and tx: "''__total__'' \<notin> set (apply_t tk text)"
  shows "calculate_posteriors_fp m text =
           Inr (map (\<lambda>c. (c, posterior_fp tk X y (apply_t tk text) c)) (unique y))"
    and "class_priors m = map (\<lambda>c. (c, prior_fp tk X y c)) (unique y)"
proof -
  let ?ds = "zip X y"
  let ?ws = "apply_t tk text"
  let ?V = "card (set (doc_tokens tk ?ds))"
  let ?W = "\<lambda>c. label_tokens tk ?ds c"
  have ne: "X \<noteq> []" using tok by auto
  have tot: "stored_total (?W c) = length (?W c)" for c
  proof -
    have "set (?W c) \<subseteq> set (doc_tokens tk ?ds)"
      by (auto simp: label_tokens_def doc_tokens_def)
    then show ?thesis using tr by (auto simp: stored_total_def count_list_0_iff)
  qed
  from fit_fp_trained [OF len ne, of tk] fit
  have fed: "fed tk ?ds m"
    and pri: "class_priors m = map (\<lambda>c. (c, prior_fp tk X y c)) (unique y)"
    by (auto simp: prior_fp_def prior_spec_def tot)
  show "class_priors m = map (\<lambda>c. (c, prior_fp tk X y c)) (unique y)"
    by (rule pri)
  have tkm: "tokenizer m = tk" and voc: "fcard (vocab m) = ?V"
    using fed by (auto simp: fed_def fcard_fset_of_list)
  have keys: "map fst (class_word_counts m) = unique y"
    using fed len by (simp add: fed_def)
  have Vpos: "0 < ?V" using tok by (simp add: card_gt_0_iff)
  have prior: "map_of (class_priors m) c = Some (prior_fp tk X y c)" if "c \<in> set (unique y)" for c
    unfolding pri using that by (rule map_of_map_key)
  have lik: "likelihood_loop_fp m c 1 ?ws
      = Inr (foldl (\<lambda>l t. round_double (l * smoothed_fp tk X y c t)) 1 ?ws)"
    if c: "c \<in> set (unique y)" for c
  proof -
    have "c \<in> fst ` set (class_word_counts m)"
      using c keys by (metis set_map)
    then obtain d where d: "map_of (class_word_counts m) c = Some d"
      by (metis map_of_eq_None_iff not_Some_eq)
    then have cd: "counted d (?W c)"
      using fed by (simp add: fed_def)
    then have T: "map_of d ''__total__'' = Some (length (?W c))"
      by (simp add: counted_def tot [unfolded stored_total_def])
    have pos: "0 < length (?W c) + fcard (vocab m)"
      using voc Vpos by simp
    have g: "round_double (of_nat (get0 d t + 1) / of_nat (length (?W c) + fcard (vocab m)))
        = smoothed_fp tk X y c t" if "t \<in> set ?ws" for t
    proof -
      have "t \<noteq> ''__total__''" using that tx by auto
      then have "get0 d t = count_list (?W c) t"
        using counted_get0 [OF cd, of t] by (simp add: stored_count_def)
      then show ?thesis by (simp add: smoothed_fp_def smoothed_spec_def voc)
    qed
    have "foldl (\<lambda>l t. round_double (l *
              round_double (of_nat (get0 d t + 1) / of_nat (length (?W c) + fcard (vocab m))))) 1 ?ws
        = foldl (\<lambda>l t. round_double (l * smoothed_fp tk X y c t)) 1 ?ws"
      by (rule foldl_round_cong) (rule g)
    then show ?thesis
      unfolding likelihood_loop_fp_ok [OF d T pos] by (rule arg_cong)
  qed
  have "posteriors_loop_fp m ?ws [] (unique y)
      = Inr ([] @ map (\<lambda>c. (c, round_double (prior_fp tk X y c *
               foldl (\<lambda>l t. round_double (l * smoothed_fp tk X y c t)) 1 ?ws))) (unique y))"
    by (rule posteriors_loop_fp_ok) (use prior lik in simp_all)
  moreover have "map fst (class_priors m) = unique y"
    by (simp add: pri comp_def)
  ultimately show "calculate_posteriors_fp m text =
           Inr (map (\<lambda>c. (c, posterior_fp tk X y (apply_t tk text) c)) (unique y))"
    by (simp add: calculate_posteriors_fp_def tkm posterior_fp_def)
qed

text \<open>
  Rounding changes the values only: on any classifier and text the rounded and the unrounded
  functions raise the same error, or both return dictionaries with the same keys in the same
  order.
\<close>

lemma likelihood_loop_fp_same_outcome:
  "rel_sum (=) (\<lambda>a b. True) (likelihood_loop_fp m c a ws) (likelihood_loop m c b ws)"
proof (induction ws arbitrary: a b)
  case Nil
  then show ?case by simp
next
  case (Cons w ws)
  show ?case
  proof (cases "likelihood_step m c b w")
    case (Inl e)
    then have "likelihood_step_fp m c a w = Inl e"
      by (auto simp: likelihood_step_def likelihood_step_fp_def Let_def
          split: option.splits if_splits)
    then show ?thesis using Inl by simp
  next
    case (Inr l)
    then obtain l' where "likelihood_step_fp m c a w = Inr l'"
      by (auto simp: likelihood_step_def likelihood_step_fp_def Let_def
          split: option.splits if_splits)
    then show ?thesis using Inr Cons.IH [of l' l] by simp
  qed
qed

lemma posteriors_loop_fp_same_outcome:
  "map fst post = map fst post' \<Longrightarrow>
   rel_sum (=) (\<lambda>ps qs. map fst ps = map fst qs)
     (posteriors_loop_fp m ws post ls) (posteriors_loop m ws post' ls)"
proof (induction ls arbitrary: post post')
  case Nil
  then show ?case by simp
next
  case (Cons l ls)
  show ?case
  proof (cases "map_of (class_priors m) l")
    case None
    then show ?thesis by simp
  next
    case (Some prior)
    have rel: "rel_sum (=) (\<lambda>a b. True) (likelihood_loop_fp m l 1 ws) (likelihood_loop m l 1 ws)"
      by (rule likelihood_loop_fp_same_outcome)
    show ?thesis
    proof (cases "likelihood_loop m l 1 ws")
      case (Inl e)
      then have "likelihood_loop_fp m l 1 ws = Inl e"
        using rel by (cases "likelihood_loop_fp m l 1 ws") simp_all
      then show ?thesis using Some Inl by simp
    next
      case (Inr lk)
      then obtain lk' where fp: "likelihood_loop_fp m l 1 ws = Inr lk'"
        using rel by (cases "likelihood_loop_fp m l 1 ws") simp_all
      have "map fst (AList.update l (round_double (prior * lk')) post)
          = map fst (AList.update l (prior * lk) post')"
        using Cons.prems by (simp add: update_keys)
      from Cons.IH [OF this] show ?thesis
        using Some Inr fp by simp
    qed
  qed
qed

lemma calculate_posteriors_fp_same_outcome:
  "rel_sum (=) (\<lambda>ps qs. map fst ps = map fst qs)
     (calculate_posteriors_fp m text) (calculate_posteriors m text)"
  unfolding calculate_posteriors_fp_def calculate_posteriors_def
  by (rule posteriors_loop_fp_same_outcome) simp

lemma foldl_round_nonneg:
  "(\<And>t. t \<in> set ws \<Longrightarrow> 0 \<le> g t) \<Longrightarrow> 0 \<le> a \<Longrightarrow>
   0 \<le> foldl (\<lambda>l t. round_double (l * g t)) a ws"
proof (induction ws arbitrary: a)
  case Nil
  then show ?case by simp
next
  case (Cons w ws)
  have "0 \<le> round_double (a * g w)"
    using Cons.prems by (intro round_double_nonneg mult_nonneg_nonneg) simp_all
  then show ?case using Cons by simp
qed

lemma smoothed_fp_nonneg: "0 \<le> smoothed_fp tk X y c t"
  unfolding smoothed_fp_def smoothed_spec_def by (intro round_double_nonneg) simp

lemma posterior_fp_nonneg: "0 \<le> posterior_fp tk X y ws c"
proof -
  have "0 \<le> prior_fp tk X y c"
    unfolding prior_fp_def prior_spec_def by (intro round_double_nonneg) simp
  moreover have "0 \<le> foldl (\<lambda>l t. round_double (l * smoothed_fp tk X y c t)) 1 ws"
    by (intro foldl_round_nonneg) (simp_all add: smoothed_fp_nonneg)
  ultimately show ?thesis
    unfolding posterior_fp_def by (intro round_double_nonneg mult_nonneg_nonneg)
qed

text \<open>
  Underflow: a product of 359 or more factors, none above \<open>1/8\<close>, is rounded to zero on the way.
\<close>

lemma foldl_round_bound:
  assumes "\<And>t. t \<in> set ws \<Longrightarrow> 0 \<le> g t \<and> g t \<le> pow2 (- 3)"
    and "0 \<le> a" and "a \<le> pow2 (- 3 * int k)" and "3 * (k + length ws) \<le> 1074"
  shows "0 \<le> foldl (\<lambda>l t. round_double (l * g t)) a ws
       \<and> foldl (\<lambda>l t. round_double (l * g t)) a ws \<le> pow2 (- 3 * int (k + length ws))"
  using assms
proof (induction ws arbitrary: a k)
  case Nil
  then show ?case by simp
next
  case (Cons w ws)
  have g: "0 \<le> g w" "g w \<le> pow2 (- 3)" using Cons.prems(1) [of w] by simp_all
  have nn: "0 \<le> a * g w" using Cons.prems(2) g(1) by simp
  have "a * g w \<le> pow2 (- 3 * int k) * pow2 (- 3)"
    using Cons.prems(2,3) g by (intro mult_mono) simp_all
  also have "\<dots> = pow2 (- 3 * int (Suc k))"
    using pow2_add [of "- 3 * int k" "- 3"] by (simp add: algebra_simps)
  finally have le: "a * g w \<le> pow2 (- 3 * int (Suc k))" .
  have "- 1074 \<le> - 3 * int (Suc k)" using Cons.prems(4) by simp
  then have 1: "round_double (a * g w) \<le> pow2 (- 3 * int (Suc k))"
    using nn le by (intro round_double_le_pow2)
  have 0: "0 \<le> round_double (a * g w)" using nn by (rule round_double_nonneg)
  have "3 * (Suc k + length ws) \<le> 1074" using Cons.prems(4) by simp
  from Cons.IH [OF _ 0 1 this] Cons.prems(1) show ?case by simp
qed

lemma foldl_round_zero: "foldl (\<lambda>l t. round_double (l * g t)) 0 ws = 0"
  by (induction ws) simp_all

lemma foldl_round_underflow:
  assumes "\<And>t. t \<in> set ws \<Longrightarrow> 0 \<le> g t \<and> g t \<le> pow2 (- 3)" and "359 \<le> length ws"
  shows "foldl (\<lambda>l t. round_double (l * g t)) 1 ws = 0"
proof -
  let ?f = "\<lambda>l t. round_double (l * g t)"
  let ?w = "ws ! 358"
  have ws: "ws = take 358 ws @ ?w # drop 359 ws"
    using assms(2) id_take_nth_drop [of 358 ws] by simp
  have len: "length (take 358 ws) = 358" using assms(2) by simp
  have "(1::rat) \<le> pow2 (- 3 * int 0)" by (simp add: pow2_def)
  moreover have "\<And>t. t \<in> set (take 358 ws) \<Longrightarrow> 0 \<le> g t \<and> g t \<le> pow2 (- 3)"
    using assms(1) by (meson in_set_takeD)
  ultimately have r: "0 \<le> foldl ?f 1 (take 358 ws)"
    "foldl ?f 1 (take 358 ws) \<le> pow2 (- 3 * int (0 + length (take 358 ws)))"
    using foldl_round_bound [of "take 358 ws" g 1 0] len by simp_all
  have r': "foldl ?f 1 (take 358 ws) \<le> pow2 (- 1074)"
    using r(2) unfolding len by simp
  have w: "0 \<le> g ?w" "g ?w \<le> pow2 (- 3)"
    using assms(1) [of ?w] assms(2) by simp_all
  have "foldl ?f 1 (take 358 ws) * g ?w \<le> pow2 (- 1074) * pow2 (- 3)"
    using r(1) r' w by (intro mult_mono) simp_all
  also have "\<dots> = pow2 (- 1077)"
    using pow2_add [of "- 1074" "- 3"] by simp
  also have "\<dots> < pow2 (- 1075)"
    unfolding pow2_def by (intro power_int_strict_increasing) simp_all
  finally have "round_double (foldl ?f 1 (take 358 ws) * g ?w) = 0"
    using r(1) w(1) by (intro round_double_underflow) simp_all
  then have "foldl ?f 1 (take 358 ws @ ?w # drop 359 ws) = 0"
    by (simp add: foldl_round_zero)
  then show ?thesis using ws by simp
qed

lemma fit_fp_scenario: "fit_fp (init identity_tokenizer) scenario_X scenario_y = Inr scenario_model"
proof -
  have "round_double 2 = 2" "round_double 1 = 1"
    by code_simp+
  then show ?thesis
    by (simp add: fit_fp_def prior_entry_fp_def eval_defs scenario_X_def scenario_y_def
        scenario_model_def)
qed

lemma fit_fp_blank: "fit_fp (init identity_tokenizer) [''''] [''a''] = Inr blank_model"
  by (simp add: fit_fp_def prior_entry_fp_def eval_defs blank_model_def)

lemma long_text_tokens: "apply_t identity_tokenizer long_text = replicate 360 ''zz''"
  by code_simp

lemma scenario_label_tokens:
  "label_tokens identity_tokenizer (zip scenario_X scenario_y) ''finance''
     = [''stocks'', ''rally'', ''today'', ''market'', ''crash'', ''fears'']"
  "label_tokens identity_tokenizer (zip scenario_X scenario_y) ''sports''
     = [''team'', ''wins'', ''championship'']"
  by (simp_all add: label_tokens_def doc_tokens_def scenario_X_def scenario_y_def eval_defs)

text \<open>
  C1 (as amended).  For a classifier trained on documents that emitted at least one token,
  none of them spelled \<open>__total__\<close>, and for a text none of whose tokens is spelled
  \<open>__total__\<close>, \<open>_calculate_posteriors\<close> returns, for each category \<open>c\<close> seen in training (in
  the order of first appearance), the double-precision evaluation of \<open>prior[c]\<close> times the
  product over the text's tokens \<open>t\<close> of \<open>(count(c,t) + 1) / (total(c) + |Vocabulary|)\<close>, where
  \<open>count(c,t)\<close> is 0 for tokens unseen under \<open>c\<close>: the prior and every quotient are rounded to
  a double, the product is accumulated from \<open>1.0\<close> in the order of the tokens with every
  multiplication rounded, and so is the final product with the prior.  Every posterior is
  non-negative.
\<close>

theorem posteriors_rounded_laplace:
  assumes "fit_fp (init tk) X y = Inr m" and "length X = length y"
    and "doc_tokens tk (zip X y) \<noteq> []"
    and "''__total__'' \<notin> set (doc_tokens tk (zip X y))"
    and "''__total__'' \<notin> set (apply_t tk text)"
  shows "calculate_posteriors_fp m text =
           Inr (map (\<lambda>c. (c, posterior_fp tk X y (apply_t tk text) c)) (unique y))
         \<and> class_priors m = map (\<lambda>c. (c, prior_fp tk X y c)) (unique y)
         \<and> (\<forall>c. 0 \<le> posterior_fp tk X y (apply_t tk text) c)"
  using trained_posteriors_fp [OF assms] posterior_fp_nonneg by simp

theorem posteriors_rounded_laplace_witness:
  "fit_fp (init identity_tokenizer) scenario_X scenario_y = Inr scenario_model
   \<and> calculate_posteriors_fp scenario_model ''stocks fall''
       = Inr [(''finance'', posterior_fp identity_tokenizer scenario_X scenario_y [''stocks'', ''fall''] ''finance''),
              (''sports'', posterior_fp identity_tokenizer scenario_X scenario_y [''stocks'', ''fall''] ''sports'')]
   \<and> calculate_posteriors_fp scenario_model ''stocks fall''
       = Inr [(''finance'', 5124095576030431 / 288230376151711744),
              (''sports'', 2001599834386887 / 288230376151711744)]"
proof -
  have h2: "length scenario_X = length scenario_y"
    by (simp add: scenario_X_def scenario_y_def)
  have h3: "doc_tokens identity_tokenizer (zip scenario_X scenario_y) \<noteq> []"
    by (simp add: scenario_doc_tokens)
  have h4: "''__total__'' \<notin> set (doc_tokens identity_tokenizer (zip scenario_X scenario_y))"
    by (simp add: scenario_doc_tokens)
  have h5: "''__total__'' \<notin> set (apply_t identity_tokenizer ''stocks fall'')"
    by (simp add: stocks_fall_tokens)
  have u: "unique scenario_y = [''finance'', ''sports'']"
    by (simp add: unique_def scenario_y_def)
  have "calculate_posteriors_fp scenario_model ''stocks fall''
       = Inr [(''finance'', 5124095576030431 / 288230376151711744),
              (''sports'', 2001599834386887 / 288230376151711744)]"
    by code_simp
  then show ?thesis
    using posteriors_rounded_laplace [OF fit_fp_scenario h2 h3 h4 h5] fit_fp_scenario
    by (simp add: u stocks_fall_tokens)
qed

text \<open>
  The claim as worded fails three times.  A classifier trained on one document that yields no
  token has an empty vocabulary and a zero total, and raises on any text with a token.  On
  the scenario's classifier a text of 360 unseen words has the posterior \<open>0.0\<close> under
  \<open>finance\<close>, whose prior is 2: the product of the smoothed quotients underflows.  And the text
  \<open>__total__\<close>, a token never seen in training, is counted with the total of the category:
  \<open>2 * (7 / 15)\<close> instead of \<open>2 * (1 / 15)\<close> for \<open>finance\<close>.
\<close>

theorem posteriors_laplace_counterexample:
  "fit_fp (init identity_tokenizer) [''''] [''a''] = Inr blank_model
   \<and> calculate_posteriors_fp blank_model ''x'' = Inl ZeroDivisionError
   \<and> fit_fp (init identity_tokenizer) scenario_X scenario_y = Inr scenario_model
   \<and> class_priors scenario_model = [(''finance'', 2), (''sports'', 1)]
   \<and> calculate_posteriors_fp scenario_model long_text = Inr [(''finance'', 0), (''sports'', 0)]
   \<and> calculate_posteriors_fp scenario_model ''__total__''
       = Inr [(''finance'', 4203359652212463 / 4503599627370496),
              (''sports'', 6004799503160661 / 18014398509481984)]
   \<and> posterior_fp identity_tokenizer scenario_X scenario_y [''__total__''] ''finance''
       = 4803839602528529 / 36028797018963968"
proof -
  have blank: "calculate_posteriors_fp blank_model ''x'' = Inl ZeroDivisionError"
    by (simp add: calculate_posteriors_fp_def likelihood_step_fp_def get0_def blank_model_def
        eval_defs fcard_fempty)
  have h2: "length scenario_X = length scenario_y"
    by (simp add: scenario_X_def scenario_y_def)
  have h3: "doc_tokens identity_tokenizer (zip scenario_X scenario_y) \<noteq> []"
    by (simp add: scenario_doc_tokens)
  have h4: "''__total__'' \<notin> set (doc_tokens identity_tokenizer (zip scenario_X scenario_y))"
    by (simp add: scenario_doc_tokens)
  have h5: "''__total__'' \<notin> set (apply_t identity_tokenizer long_text)"
    by (simp add: long_text_tokens)
  have u: "unique scenario_y = [''finance'', ''sports'']"
    by (simp add: unique_def scenario_y_def)
  have eighth: "pow2 (- 3) = 1 / 8"
    by (simp add: pow2_def)
  have fin: "smoothed_fp identity_tokenizer scenario_X scenario_y ''finance'' ''zz'' \<le> pow2 (- 3)"
    unfolding smoothed_fp_def
    by (rule round_double_le_pow2)
      (simp_all add: smoothed_spec_def scenario_label_tokens scenario_doc_tokens eighth)
  have spo: "smoothed_fp identity_tokenizer scenario_X scenario_y ''sports'' ''zz'' \<le> pow2 (- 3)"
    unfolding smoothed_fp_def
    by (rule round_double_le_pow2)
      (simp_all add: smoothed_spec_def scenario_label_tokens scenario_doc_tokens eighth)
  have zero: "posterior_fp identity_tokenizer scenario_X scenario_y (replicate 360 ''zz'') c = 0"
    if "smoothed_fp identity_tokenizer scenario_X scenario_y c ''zz'' \<le> pow2 (- 3)" for c
  proof -
    have "foldl (\<lambda>l t. round_double (l * smoothed_fp identity_tokenizer scenario_X scenario_y c t)) 1
            (replicate 360 ''zz'') = 0"
      by (rule foldl_round_underflow) (use that smoothed_fp_nonneg in auto)
    then show ?thesis by (simp add: posterior_fp_def)
  qed
  have long: "calculate_posteriors_fp scenario_model long_text = Inr [(''finance'', 0), (''sports'', 0)]"
    using trained_posteriors_fp(1) [OF fit_fp_scenario h2 h3 h4 h5] zero [OF fin] zero [OF spo]
    by (simp add: u long_text_tokens)
  have tot: "calculate_posteriors_fp scenario_model ''__total__''
       = Inr [(''finance'', 4203359652212463 / 4503599627370496),
              (''sports'', 6004799503160661 / 18014398509481984)]"
    by code_simp
  have "round_double (round_double 2 * round_double (1 * round_double (1 / 15)))
      = 4803839602528529 / 36028797018963968"
    by code_simp
  then have spec: "posterior_fp identity_tokenizer scenario_X scenario_y [''__total__''] ''finance''
       = 4803839602528529 / 36028797018963968"
    by (simp add: posterior_fp_def prior_fp_def prior_spec_def smoothed_fp_def smoothed_spec_def
        scenario_label_tokens scenario_doc_tokens)
      (simp add: scenario_y_def)
  have "class_priors scenario_model = [(''finance'', 2), (''sports'', 1)]"
    by (simp add: scenario_model_def)
  with blank long tot spec show ?thesis
    using fit_fp_blank fit_fp_scenario by simp
qed

section \<open>Prediction\<close>

lemma max_loop_split:
  assumes "\<forall>p\<in>set before. snd p < snd best" and "\<forall>p\<in>set mid. snd p \<le> snd best"
  shows "\<exists>before' after'. before @ best # mid @ rest = before' @ max_loop best rest # after'
           \<and> (\<forall>p\<in>set before'. snd p < snd (max_loop best rest))
           \<and> (\<forall>p\<in>set after'. snd p \<le> snd (max_loop best rest))"
  using assms
proof (induction rest arbitrary: before best mid)
  case Nil
  then show ?case by auto
next
  case (Cons kv rest)
  show ?case
  proof (cases "snd best < snd kv")
    case True
    have "\<forall>p\<in>set (before @ best # mid). snd p < snd kv"
      using Cons.prems True by auto
    moreover have "\<forall>p\<in>set []. snd p \<le> snd kv" by simp
    ultimately obtain before' after' where
      "(before @ best # mid) @ kv # [] @ rest = before' @ max_loop kv rest # after'"
      "\<forall>p\<in>set before'. snd p < snd (max_loop kv rest)"
      "\<forall>p\<in>set after'. snd p \<le> snd (max_loop kv rest)"
      using Cons.IH [of "before @ best # mid" kv "[]"] by blast
    then show ?thesis using True by auto
  next
    case False
    have "\<forall>p\<in>set (mid @ [kv]). snd p \<le> snd best"
      using Cons.prems False by auto
    then obtain before' after' where
      "before @ best # (mid @ [kv]) @ rest = before' @ max_loop best rest # after'"
      "\<forall>p\<in>set before'. snd p < snd (max_loop best rest)"
      "\<forall>p\<in>set after'. snd p \<le> snd (max_loop best rest)"
      using Cons.IH [of before best "mid @ [kv]"] Cons.prems(1) by blast
    then show ?thesis using False by auto
  qed
qed

lemma max_key_first_max:
  assumes "d \<noteq> []"
  shows "\<exists>c. max_key d = Inr c \<and> first_max d c"
proof -
  obtain kv rest where d: "d = kv # rest" using assms by (cases d) auto
  obtain before' after' where s: "[] @ kv # [] @ rest = before' @ max_loop kv rest # after'"
    "\<forall>p\<in>set before'. snd p < snd (max_loop kv rest)"
    "\<forall>p\<in>set after'. snd p \<le> snd (max_loop kv rest)"
    using max_loop_split [of "[]" kv "[]" rest] by auto
  have "d = before' @ (fst (max_loop kv rest), snd (max_loop kv rest)) # after'"
    using s(1) d by simp
  then have "first_max d (fst (max_loop kv rest))"
    unfolding first_max_def using s(2,3) by blast
  then show ?thesis by (simp add: d max_key_def)
qed

text \<open>The first greatest entry is unique: \<open>first_max\<close> determines the category.\<close>

lemma first_max_unique:
  assumes "first_max d c" and "first_max d c'"
  shows "c = c'"
proof -
  obtain b v a where d1: "d = b @ (c, v) # a" and b1: "\<And>p. p \<in> set b \<Longrightarrow> snd p < v"
    and a1: "\<And>p. p \<in> set a \<Longrightarrow> snd p \<le> v"
    using assms(1) unfolding first_max_def by blast
  obtain b' v' a' where d2: "d = b' @ (c', v') # a'" and b2: "\<And>p. p \<in> set b' \<Longrightarrow> snd p < v'"
    and a2: "\<And>p. p \<in> set a' \<Longrightarrow> snd p \<le> v'"
    using assms(2) unfolding first_max_def by blast
  have "(c', v') \<in> set b \<or> (c', v') = (c, v) \<or> (c', v') \<in> set a"
  proof -
    have "(c', v') \<in> set d" unfolding d2 by simp
    then show ?thesis unfolding d1 by auto
  qed
  then have le1: "v' \<le> v"
    using b1 [of "(c', v')"] a1 [of "(c', v')"] by auto
  have "(c, v) \<in> set b' \<or> (c, v) = (c', v') \<or> (c, v) \<in> set a'"
  proof -
    have "(c, v) \<in> set d" unfolding d1 by simp
    then show ?thesis unfolding d2 by auto
  qed
  then have le2: "v \<le> v'"
    using b2 [of "(c, v)"] a2 [of "(c, v)"] by auto
  have at: "d ! length b = (c, v)" unfolding d1 by simp
  have at': "d ! length b' = (c', v')" unfolding d2 by simp
  have "\<not> length b < length b'"
  proof
    assume lt: "length b < length b'"
    have "d ! length b = b' ! length b"
      unfolding d2 using lt by (simp add: nth_append)
    then have "(c, v) \<in> set b'"
      using at lt nth_mem [of "length b" b'] by simp
    then show False using b2 [of "(c, v)"] le1 by simp
  qed
  moreover have "\<not> length b' < length b"
  proof
    assume lt: "length b' < length b"
    have "d ! length b' = b ! length b'"
      unfolding d1 using lt by (simp add: nth_append)
    then have "(c', v') \<in> set b"
      using at' lt nth_mem [of "length b'" b] by simp
    then show False using b1 [of "(c', v')"] le2 by simp
  qed
  ultimately have "length b = length b'" by simp
  then show ?thesis using at at' by simp
qed

lemma predict_ok:
  assumes "\<And>text. text \<in> set texts \<Longrightarrow> \<exists>ps. calculate_posteriors m text = Inr ps \<and> ps \<noteq> [] \<and> Q ps"
  shows "\<exists>cs. predict m texts = Inr cs \<and>
           list_all2 (\<lambda>text c. \<exists>ps. calculate_posteriors m text = Inr ps \<and> Q ps \<and> first_max ps c) texts cs"
  using assms
proof (induction texts)
  case Nil
  then show ?case by simp
next
  case (Cons t texts)
  obtain ps where ps: "calculate_posteriors m t = Inr ps" "ps \<noteq> []" "Q ps"
    using Cons.prems [of t] by auto
  obtain c where c: "max_key ps = Inr c" "first_max ps c"
    using max_key_first_max [OF ps(2)] by blast
  obtain cs where cs: "predict m texts = Inr cs"
    "list_all2 (\<lambda>text c. \<exists>ps. calculate_posteriors m text = Inr ps \<and> Q ps \<and> first_max ps c) texts cs"
    using Cons.IH Cons.prems by auto
  have "predict m (t # texts) = Inr (c # cs)"
    using ps(1) c(1) cs(1) by simp
  then show ?case using ps c(2) cs(2) by auto
qed

lemma stored_posterior_Nil:
  "stored_posterior tk X y [] c =
     of_nat (stored_total (label_tokens tk (zip X y) c)) / of_nat (length y)"
  by (simp add: stored_posterior_def)

text \<open>
  C9.  For a trained classifier and a text whose tokenization is empty, the posterior of every
  category is exactly its prior, and \<open>predict\<close> returns the first-seen category among those
  with the largest prior.
\<close>

theorem empty_text_posteriors_are_priors:
  assumes "fit (init tk) X y = Inr m" and "length X = length y" and "X \<noteq> []"
    and "apply_t tk text = []"
  shows "calculate_posteriors m text = Inr (class_priors m)
         \<and> map fst (class_priors m) = unique y
         \<and> (\<exists>c. predict m [text] = Inr [c] \<and> first_max (class_priors m) c)"
proof -
  have pri: "class_priors m =
      map (\<lambda>c. (c, of_nat (stored_total (label_tokens tk (zip X y) c)) / of_nat (length y))) (unique y)"
    using fit_trained [OF assms(2,3), of tk] assms(1) by auto
  have "calculate_posteriors m text =
          Inr (map (\<lambda>c. (c, stored_posterior tk X y (apply_t tk text) c)) (unique y))"
    using trained_posteriors [OF assms(1,2,3)] assms(4) by simp
  then have post: "calculate_posteriors m text = Inr (class_priors m)"
    by (simp add: assms(4) stored_posterior_Nil pri)
  have keys: "map fst (class_priors m) = unique y"
    using assms(1,2) by (rule fit_prior_keys)
  have "y \<noteq> []" using assms(2,3) by auto
  then have "unique y \<noteq> []" by simp
  then have "map fst (class_priors m) \<noteq> []" unfolding keys .
  then have "class_priors m \<noteq> []" by auto
  then obtain c where "max_key (class_priors m) = Inr c" "first_max (class_priors m) c"
    using max_key_first_max by blast
  then have "predict m [text] = Inr [c] \<and> first_max (class_priors m) c"
    using post by simp
  then show ?thesis using post keys by blast
qed

theorem empty_text_posteriors_are_priors_witness:
  "fit (init identity_tokenizer) scenario_X scenario_y = Inr scenario_model
   \<and> apply_t identity_tokenizer '' '' = []
   \<and> calculate_posteriors scenario_model '' '' = Inr [(''finance'', 2), (''sports'', 1)]
   \<and> map fst (class_priors scenario_model) = unique scenario_y
   \<and> predict scenario_model ['' ''] = Inr [''finance'']"
proof -
  have h2: "length scenario_X = length scenario_y"
    by (simp add: scenario_X_def scenario_y_def)
  have h3: "scenario_X \<noteq> []"
    by (simp add: scenario_X_def)
  have h4: "apply_t identity_tokenizer '' '' = []"
    by (simp add: eval_defs)
  have "predict scenario_model ['' ''] = Inr [''finance'']"
    by (simp add: calculate_posteriors_def max_key_def scenario_model_def eval_defs)
  moreover have "class_priors scenario_model = [(''finance'', 2), (''sports'', 1)]"
    by (simp add: scenario_model_def)
  ultimately show ?thesis
    using empty_text_posteriors_are_priors [OF fit_scenario h2 h3 h4] fit_scenario h4 by simp
qed

text \<open>
  C8 (as amended).  For a classifier trained on documents that emitted at least one token,
  \<open>predict\<close> returns for every input text the category with the maximal posterior, and when
  several categories attain the maximum, the one that comes first in the order in which the
  categories were first seen during \<open>fit\<close>.
\<close>

theorem predict_first_argmax:
  assumes "fit (init tk) X y = Inr m" and "length X = length y"
    and "doc_tokens tk (zip X y) \<noteq> []"
  shows "\<exists>cs. predict m texts = Inr cs \<and>
           list_all2 (\<lambda>text c. \<exists>ps. calculate_posteriors m text = Inr ps
                                  \<and> map fst ps = unique y \<and> first_max ps c) texts cs"
proof -
  have ne: "X \<noteq> []" using assms(3) by auto
  then have "y \<noteq> []" using assms(2) by auto
  have "\<exists>ps. calculate_posteriors m t = Inr ps \<and> ps \<noteq> [] \<and> map fst ps = unique y" for t
  proof -
    have "calculate_posteriors m t =
          Inr (map (\<lambda>c. (c, stored_posterior tk X y (apply_t tk t) c)) (unique y))"
      using trained_posteriors [OF assms(1,2) ne, of t] assms(3) by simp
    then show ?thesis using \<open>y \<noteq> []\<close> by (simp add: comp_def)
  qed
  then show ?thesis
    using predict_ok [of texts m "\<lambda>ps. map fst ps = unique y"] by simp
qed

lemma fit_tie: "fit (init identity_tokenizer) [''a'', ''b''] [''x'', ''y''] = Inr tie_model"
  by (simp add: eval_defs tie_model_def)

theorem predict_first_argmax_witness:
  "fit (init identity_tokenizer) [''a'', ''b''] [''x'', ''y''] = Inr tie_model
   \<and> calculate_posteriors tie_model ''c'' = Inr [(''x'', 1 / 6), (''y'', 1 / 6)]
   \<and> (\<exists>cs. predict tie_model [''c''] = Inr cs \<and>
         list_all2 (\<lambda>text c. \<exists>ps. calculate_posteriors tie_model text = Inr ps
                        \<and> map fst ps = unique [''x'', ''y''] \<and> first_max ps c) [''c''] cs)
   \<and> predict tie_model [''c''] = Inr [''x'']"
proof -
  have h2: "length [''a'', ''b''] = length [''x'', ''y'']" by simp
  have h3: "doc_tokens identity_tokenizer (zip [''a'', ''b''] [''x'', ''y'']) \<noteq> []"
    by (simp add: doc_tokens_def eval_defs)
  have post: "calculate_posteriors tie_model ''c'' = Inr [(''x'', 1 / 6), (''y'', 1 / 6)]"
    by (simp add: calculate_posteriors_def likelihood_step_def get0_def tie_model_def
        eval_defs fcard_finsert_if fcard_fempty)
  then have "predict tie_model [''c''] = Inr [''x'']"
    by (simp add: max_key_def)
  then show ?thesis
    using predict_first_argmax [OF fit_tie h2 h3, of "[''c'']"] fit_tie post by simp
qed

text \<open>
  \<open>predict\<close> does not return on every trained classifier: when no training document yielded a
  token, the smoothed quotient divides by zero.
\<close>

theorem predict_blank_raises:
  "fit (init identity_tokenizer) [''''] [''a''] = Inr blank_model
   \<and> predict blank_model [''x''] = Inl ZeroDivisionError"
proof -
  have "calculate_posteriors blank_model ''x'' = Inl ZeroDivisionError"
    by (simp add: calculate_posteriors_def likelihood_step_def get0_def blank_model_def
        eval_defs fcard_fempty)
  then show ?thesis using fit_blank by simp
qed

section \<open>Binary classification against a threshold\<close>

lemma classify_loop_step:
  assumes "classify_loop m u cat (a, b, c, d) (x # xs) ys = Inr r"
  shows "\<exists>l ys' s. ys = l # ys' \<and> score m cat x = Inr s \<and>
           classify_loop m u cat
             (if u < s then (if l = cat then (a + 1, b, c, d) else (a, b + 1, c, d))
              else (if l = cat then (a, b, c + 1, d) else (a, b, c, d + 1))) xs ys' = Inr r"
proof -
  obtain ps where ps: "calculate_posteriors m x = Inr ps"
    using assms by (cases "calculate_posteriors m x") auto
  obtain cp where cp: "map_of ps cat = Some cp"
    using assms ps by (cases "map_of ps cat") auto
  have nz: "sum_list (map snd ps) \<noteq> 0"
    using assms ps cp by (auto simp: Let_def split: if_splits)
  obtain l ys' where ys: "ys = l # ys'"
    using assms ps cp nz by (cases ys) (auto simp: Let_def)
  have "score m cat x = Inr (cp / sum_list (map snd ps))"
    using ps cp nz by (simp add: score_def)
  moreover have "classify_loop m u cat
             (if u < cp / sum_list (map snd ps)
              then (if l = cat then (a + 1, b, c, d) else (a, b + 1, c, d))
              else (if l = cat then (a, b, c + 1, d) else (a, b, c, d + 1))) xs ys' = Inr r"
    using assms ps cp nz ys by (simp add: Let_def)
  ultimately show ?thesis using ys by blast
qed

lemma classify_loop_counts:
  assumes "classify_loop m u cat (a, b, c, d) X y = Inr (TP, FP, FN, TN)"
  shows "length X \<le> length y
    \<and> TP = a + length (filter (\<lambda>p. positive m u cat (fst p) \<and> snd p = cat) (zip X y))
    \<and> FP = b + length (filter (\<lambda>p. positive m u cat (fst p) \<and> snd p \<noteq> cat) (zip X y))
    \<and> FN = c + length (filter (\<lambda>p. \<not> positive m u cat (fst p) \<and> snd p = cat) (zip X y))
    \<and> TN = d + length (filter (\<lambda>p. \<not> positive m u cat (fst p) \<and> snd p \<noteq> cat) (zip X y))"
  using assms
proof (induction X arbitrary: a b c d y)
  case Nil
  then show ?case by simp
next
  case (Cons x X)
  obtain l ys s where st: "y = l # ys" "score m cat x = Inr s"
    "classify_loop m u cat
       (if u < s then (if l = cat then (a + 1, b, c, d) else (a, b + 1, c, d))
        else (if l = cat then (a, b, c + 1, d) else (a, b, c, d + 1))) X ys = Inr (TP, FP, FN, TN)"
    using classify_loop_step [OF Cons.prems] by blast
  have pos: "positive m u cat x \<longleftrightarrow> u < s"
    using st(2) by (simp add: positive_def)
  consider (tp) "u < s" "l = cat" | (fp) "u < s" "l \<noteq> cat"
    | (fn) "\<not> u < s" "l = cat" | (tn) "\<not> u < s" "l \<noteq> cat"
    by blast
  then show ?case
  proof cases
    case tp
    then have "classify_loop m u cat (a + 1, b, c, d) X ys = Inr (TP, FP, FN, TN)"
      using st(3) by simp
    from Cons.IH [OF this] show ?thesis using tp pos st(1) by simp
  next
    case fp
    then have "classify_loop m u cat (a, b + 1, c, d) X ys = Inr (TP, FP, FN, TN)"
      using st(3) by simp
    from Cons.IH [OF this] show ?thesis using fp pos st(1) by simp
  next
    case fn
    then have "classify_loop m u cat (a, b, c + 1, d) X ys = Inr (TP, FP, FN, TN)"
      using st(3) by simp
    from Cons.IH [OF this] show ?thesis using fn pos st(1) by simp
  next
    case tn
    then have "classify_loop m u cat (a, b, c, d + 1) X ys = Inr (TP, FP, FN, TN)"
      using st(3) by simp
    from Cons.IH [OF this] show ?thesis using tn pos st(1) by simp
  qed
qed

lemma length_filter_four:
  "length (filter (\<lambda>p. P p \<and> Q p) xs) + length (filter (\<lambda>p. P p \<and> \<not> Q p) xs)
   + length (filter (\<lambda>p. \<not> P p \<and> Q p) xs) + length (filter (\<lambda>p. \<not> P p \<and> \<not> Q p) xs) = length xs"
  by (induction xs) auto

lemma length_filter_two:
  "length (filter (\<lambda>p. P p \<and> Q p) xs) + length (filter (\<lambda>p. P p \<and> \<not> Q p) xs)
     = length (filter P xs)"
  by (induction xs) auto

lemma length_filter_zip_fst:
  "length X \<le> length y \<Longrightarrow> length (filter (\<lambda>p. P (fst p)) (zip X y)) = length (filter P X)"
proof (induction X arbitrary: y)
  case Nil
  then show ?case by simp
next
  case (Cons x X)
  then show ?case by (cases y) auto
qed

text \<open>
  C4.  Whatever the classifier, the threshold, the target category and the evaluated documents,
  the four counts that \<open>classify\<close> returns add up to the number of evaluated documents; a document
  is counted positive (\<open>TP\<close> or \<open>FP\<close>, according to its label) exactly when its normalized score
  \<open>posterior[target] / \<Sum>\<^sub>c posterior[c]\<close> is strictly greater than the threshold, and negative
  (\<open>FN\<close> or \<open>TN\<close>) otherwise.
\<close>

theorem classify_counts:
  assumes "classify m X y umbral category = Inr (TP, FP, FN, TN)"
  shows "TP + FP + FN + TN = length X
    \<and> TP + FP = length (filter (positive m umbral category) X)
    \<and> TP = length (filter (\<lambda>p. positive m umbral category (fst p) \<and> snd p = category) (zip X y))
    \<and> FP = length (filter (\<lambda>p. positive m umbral category (fst p) \<and> snd p \<noteq> category) (zip X y))
    \<and> FN = length (filter (\<lambda>p. \<not> positive m umbral category (fst p) \<and> snd p = category) (zip X y))
    \<and> TN = length (filter (\<lambda>p. \<not> positive m umbral category (fst p) \<and> snd p \<noteq> category) (zip X y))"
proof -
  let ?P = "\<lambda>p. positive m umbral category (fst p)"
  let ?Q = "\<lambda>p. snd p = category"
  have c: "length X \<le> length y"
    "TP = length (filter (\<lambda>p. ?P p \<and> ?Q p) (zip X y))"
    "FP = length (filter (\<lambda>p. ?P p \<and> \<not> ?Q p) (zip X y))"
    "FN = length (filter (\<lambda>p. \<not> ?P p \<and> ?Q p) (zip X y))"
    "TN = length (filter (\<lambda>p. \<not> ?P p \<and> \<not> ?Q p) (zip X y))"
    using classify_loop_counts [of m umbral category 0 0 0 0 X y TP FP FN TN] assms
    by (simp_all add: classify_def)
  have "TP + FP + FN + TN = length (zip X y)"
    unfolding c(2-5) by (rule length_filter_four)
  then have sum: "TP + FP + FN + TN = length X"
    using c(1) by simp
  have "TP + FP = length (filter ?P (zip X y))"
    unfolding c(2,3) by (rule length_filter_two)
  then have "TP + FP = length (filter (positive m umbral category) X)"
    using length_filter_zip_fst [OF c(1), of "positive m umbral category"] by simp
  with sum c(2-5) show ?thesis by simp
qed

theorem classify_counts_witness:
  "classify scenario_model [''stocks fall'', ''team'', ''market wins''] [''finance'', ''sports'', ''sports'']
       (1 / 2) ''finance'' = Inr (1, 1, 0, 1)
   \<and> (1::nat) + 1 + 0 + 1 = length [''stocks fall'', ''team'', ''market wins'']
   \<and> (1::nat) + 1 = length (filter (positive scenario_model (1 / 2) ''finance'')
                                [''stocks fall'', ''team'', ''market wins''])"
proof -
  have run: "classify scenario_model [''stocks fall'', ''team'', ''market wins'']
       [''finance'', ''sports'', ''sports''] (1 / 2) ''finance'' = Inr (1, 1, 0, 1)"
    by (simp add: classify_def calculate_posteriors_def likelihood_step_def get0_def
        scenario_model_def eval_defs fcard_finsert_if fcard_fempty)
  show ?thesis
    using classify_counts [OF run] run by simp
qed

section \<open>A target category that was not seen in training\<close>

text \<open>
  C10.  For a trained classifier, the posteriors of any text have exactly the categories of the
  training labels as keys; so for a target category absent from them the lookup
  \<open>posteriors[category]\<close> fails with a key error on the first evaluated document, and
  \<open>classify\<close> does not return.
\<close>

theorem classify_unseen_category:
  assumes "fit (init tk) X y = Inr m" and "length X = length y" and "category \<notin> set y"
  shows "(\<forall>ps. calculate_posteriors m x = Inr ps \<longrightarrow>
            set (map fst ps) = set y \<and> map_of ps category = None
            \<and> classify m (x # Xr) yt umbral category = Inl KeyError)
         \<and> (\<forall>r. classify m (x # Xr) yt umbral category \<noteq> Inr r)"
proof -
  have keys: "map fst (class_priors m) = unique y"
    using assms(1,2) by (rule fit_prior_keys)
  have 1: "set (map fst ps) = set y \<and> map_of ps category = None
        \<and> classify m (x # Xr) yt umbral category = Inl KeyError"
    if ps: "calculate_posteriors m x = Inr ps" for ps
  proof -
    have "fst ` set ps = set (map fst (class_priors m))"
      using calculate_posteriors_keys [OF ps] by simp
    then have k: "fst ` set ps = set y" unfolding keys by simp
    then have none: "map_of ps category = None"
      using assms(3) by (simp add: map_of_eq_None_iff)
    then have "classify m (x # Xr) yt umbral category = Inl KeyError"
      using ps by (simp add: classify_def)
    then show ?thesis using k none by simp
  qed
  have "classify m (x # Xr) yt umbral category \<noteq> Inr r" for r
  proof (cases "calculate_posteriors m x")
    case (Inl e)
    then show ?thesis by (simp add: classify_def)
  next
    case (Inr ps)
    then show ?thesis using 1 [OF Inr] by simp
  qed
  then show ?thesis using 1 by blast
qed

theorem classify_unseen_category_witness:
  "fit (init identity_tokenizer) scenario_X scenario_y = Inr scenario_model
   \<and> ''politics'' \<notin> set scenario_y
   \<and> calculate_posteriors scenario_model ''team wins'' = Inr [(''finance'', 2 / 225), (''sports'', 1 / 36)]
   \<and> classify scenario_model [''team wins''] [''sports''] (1 / 2) ''politics'' = Inl KeyError"
proof -
  have h2: "length scenario_X = length scenario_y"
    by (simp add: scenario_X_def scenario_y_def)
  have h3: "''politics'' \<notin> set scenario_y"
    by (simp add: scenario_y_def)
  have post: "calculate_posteriors scenario_model ''team wins''
      = Inr [(''finance'', 2 / 225), (''sports'', 1 / 36)]"
    by (simp add: calculate_posteriors_def likelihood_step_def get0_def scenario_model_def
        eval_defs fcard_finsert_if fcard_fempty)
  show ?thesis
    using classify_unseen_category [OF fit_scenario h2 h3, of "''team wins''" "[]" "[''sports'']" "1 / 2"]
      fit_scenario h3 post by simp
qed

section \<open>The sum of the priors\<close>










section \<open>Stratified split\<close>

text \<open>With a seed that is not zero the outcome does not depend on the state of the generator.\<close>

lemma split_seeded_deterministic:
  "s \<noteq> 0 \<Longrightarrow>
   train_test_split seed sample df test_size (Some s) stratify_column g
     = train_test_split seed sample df test_size (Some s) stratify_column g'"
  by (simp add: train_test_split_def)

text \<open>
  For a test fraction between 0 and 1 the cut point of a category of \<open>n\<close> rows is the floor of
  the double product \<open>n * (1 - test_size)\<close>; the head goes to the train set and the tail to the
  test set.  The double product can lie below the exact one: five rows and the double nearest
  to \<open>0.8\<close> give the cut point 0.
\<close>

lemma cut_point:
  assumes "0 \<le> test_size" and "test_size \<le> 1"
  shows "py_int (round_double (round_double (of_nat n) * round_double (1 - test_size)))
           = \<lfloor>round_double (round_double (of_nat n) * round_double (1 - test_size))\<rfloor>"
    and "slice_to (py_int (round_double (round_double (of_nat n) * round_double (1 - test_size)))) rows
           = take (nat \<lfloor>round_double (round_double (of_nat n) * round_double (1 - test_size))\<rfloor>) rows"
    and "slice_from (py_int (round_double (round_double (of_nat n) * round_double (1 - test_size)))) rows
           = drop (nat \<lfloor>round_double (round_double (of_nat n) * round_double (1 - test_size))\<rfloor>) rows"
proof -
  let ?p = "round_double (round_double (of_nat n) * round_double (1 - test_size))"
  have "0 \<le> round_double (of_nat n)" "0 \<le> round_double (1 - test_size)"
    using assms by (simp_all add: round_double_nonneg)
  then have "0 \<le> round_double (of_nat n) * round_double (1 - test_size)"
    by (rule mult_nonneg_nonneg)
  then have nn: "0 \<le> ?p"
    by (rule round_double_nonneg)
  then show 1: "py_int ?p = \<lfloor>?p\<rfloor>"
    by (simp add: py_int_def)
  have "0 \<le> \<lfloor>?p\<rfloor>"
    using nn by simp
  then show "slice_to (py_int ?p) rows = take (nat \<lfloor>?p\<rfloor>) rows"
    and "slice_from (py_int ?p) rows = drop (nat \<lfloor>?p\<rfloor>) rows"
    unfolding 1 by (simp_all add: slice_to_def slice_from_def)
qed

lemma cut_point_five_rows:
  "py_int (round_double (round_double 5 * round_double (1 - round_double (4 / 5)))) = 0"
  by code_simp

lemma slices_partition: "slice_to k xs @ slice_from k xs = xs"
  by (simp add: slice_to_def slice_from_def)

text \<open>
  C7.  With \<open>random_state = 0\<close> the generator is not seeded, and the second of two calls with
  identical arguments starts from the state the first one left: on four rows of one category,
  with the stand-in generator, the two calls return different pairs.
\<close>

theorem split_seed_zero_not_reproducible:
  "train_test_split counter_seed counter_sample four_rows (1 / 2) (Some 0) 1 0
     = Inr (([[Some ''h2'', Some ''a''], [Some ''h1'', Some ''a'']],
             [[Some ''h3'', Some ''a''], [Some ''h4'', Some ''a'']]), 3)
   \<and> train_test_split counter_seed counter_sample four_rows (1 / 2) (Some 0) 1 3
     = Inr (([[Some ''h4'', Some ''a''], [Some ''h1'', Some ''a'']],
             [[Some ''h3'', Some ''a''], [Some ''h2'', Some ''a'']]), 6)
   \<and> map_sum id fst (train_test_split counter_seed counter_sample four_rows (1 / 2) (Some 0) 1 0)
     \<noteq> map_sum id fst (train_test_split counter_seed counter_sample four_rows (1 / 2) (Some 0) 1 3)"
  by code_simp

lemma split_seed_42_reproducible:
  "train_test_split counter_seed counter_sample four_rows (1 / 2) (Some 42) 1 0
     = train_test_split counter_seed counter_sample four_rows (1 / 2) (Some 42) 1 3"
  by (rule split_seeded_deterministic) simp

end
